theory Spec2Isabelle
  imports Main
begin

section \<open>A shallow embedding of the regex front end (\<^verbatim>\<open>src/regex.py\<close>)\<close>

text \<open>
  The Python program has three stages: the \<^verbatim>\<open>Tokenizer\<close> turns a pattern string
  into a list of \<^verbatim>\<open>Token\<close> objects, the \<^verbatim>\<open>Parser\<close> turns the token list into a tree of
  \<^verbatim>\<open>Token\<close> and \<^verbatim>\<open>Node\<close> objects by recursive descent, and \<^verbatim>\<open>compile\<close> writes the tree
  back as a pattern string.

  Conventions of the embedding.
  \<^item> A Python string is a \<open>string\<close>; a \<open>char\<close> stands for the code point of the same
    number, so the model covers patterns over the code points 0 to 255.
  \<^item> The type tags \<^verbatim>\<open>'CHAR'\<close>, \<^verbatim>\<open>'STAR'\<close>, ... that the source writes as string constants
    are the constructors of \<open>kind\<close>. The tag \<^verbatim>\<open>'CHAR'\<close> is written \<open>CHAR_k\<close>, the
    name \<open>CHAR\<close> being taken in HOL.
  \<^item> Every exception the source can raise is a constructor of \<open>error\<close>, and a function
    that can raise returns \<open>error + result\<close>.
  \<^item> The cursor of the tokenizer (\<^verbatim>\<open>self.regex\<close>, \<^verbatim>\<open>self.pos\<close>) is represented by the
    part of the string not yet read, \<open>drop pos regex\<close>; the cursor of the parser
    (\<^verbatim>\<open>self.tokens\<close>, \<^verbatim>\<open>self.pos\<close>, \<^verbatim>\<open>self.current_token\<close>) by the tokens not yet
    consumed, \<open>drop pos tokens\<close>. \<^verbatim>\<open>self.current_token\<close> is \<^verbatim>\<open>None\<close> exactly when that
    list is empty and is its head otherwise, and \<^verbatim>\<open>advance()\<close> drops the head. Both
    cursors only move forward and the source never reads behind them.
  \<^item> The methods of the parser and \<^verbatim>\<open>compile\<close> call one another recursively, and Python
    bounds the depth of its stack. Each of them is given twice: first as the source
    reads, with no bound on the depth (\<open>atom\<close>, ..., \<open>regex\<close>, \<open>parse\<close>, \<open>compile\<close>), then
    with the number of stack frames that are still free as an argument (\<open>atom_d\<close>, ...,
    \<open>regex_d\<close>, \<open>parse_d\<close>, \<open>compile_d\<close>), a call with no free frame being a
    \<open>RecursionError\<close>. The second form is the program as Python runs it; it returns what
    the first form returns unless it raises \<open>RecursionError\<close>, and it returns exactly that
    once enough frames are free (\<open>parse_d_cases\<close>, \<open>parse_d_enough\<close>,
    \<open>compile_d_cases\<close>, \<open>compile_d_enough\<close>).
\<close>

subsection \<open>Tokens, trees and errors\<close>

datatype kind =
  CHAR_k | ESCAPED_CHAR | STAR | ALT | DOT | START | END | CLASS | QUANT | LPAREN | RPAREN
  | CONCAT | GROUP

text \<open>\<^verbatim>\<open>class Token\<close>: the fields \<^verbatim>\<open>type\<close> and \<^verbatim>\<open>value\<close>.\<close>

datatype token = Token (type_of: kind) (value_of: string)

text \<open>
  A tree is what \<^verbatim>\<open>compile\<close> can be handed: a \<^verbatim>\<open>Token\<close> (the parser uses the token
  itself as a leaf) or a \<^verbatim>\<open>Node(type, left=None, right=None)\<close>, whose children may be
  \<^verbatim>\<open>None\<close>.
\<close>

datatype tree = Tok token | Node kind "tree option" "tree option"

text \<open>
  The exceptions of the source, named after the error taxonomy of the specification:
  \<^item> \<open>UnterminatedEscape\<close>: \<^verbatim>\<open>ValueError("Backslash at end of regex")\<close>;
  \<^item> \<open>UnterminatedClass\<close>: \<^verbatim>\<open>ValueError("Unclosed character class")\<close>;
  \<^item> \<open>UnterminatedQuantifier\<close>: \<^verbatim>\<open>ValueError("Unclosed quantifier")\<close>;
  \<^item> \<open>UnsupportedCharacter c\<close>: \<^verbatim>\<open>ValueError(f"Unknown character: {current_char}")\<close>;
  \<^item> \<open>UnclosedGroup\<close>: \<^verbatim>\<open>ValueError("Unclosed parenthesis")\<close>;
  \<^item> \<open>UnexpectedToken t\<close>: \<^verbatim>\<open>ValueError(f"Unexpected token: {self.current_token}")\<close>;
  \<^item> \<open>UnknownNodeKind k\<close>: \<^verbatim>\<open>ValueError(f"Unknown node type: {tree.type}")\<close>;
  \<^item> \<open>AttributeError\<close>: the exception Python raises when an attribute is read from an
    object that does not have it, such as \<^verbatim>\<open>self.current_token.type\<close> when
    \<^verbatim>\<open>self.current_token\<close> is \<^verbatim>\<open>None\<close>. The source has no \<^verbatim>\<open>raise\<close> for it;
  \<^item> \<open>RecursionError\<close>: the exception Python raises when a call would make the stack
    deeper than the recursion limit. The source has no \<^verbatim>\<open>raise\<close> for it either.
\<close>

datatype error =
  UnterminatedEscape | UnterminatedClass | UnterminatedQuantifier | UnsupportedCharacter char
  | UnclosedGroup | UnexpectedToken token | UnknownNodeKind kind | AttributeError
  | RecursionError

subsection \<open>The tokenizer\<close>

text \<open>
  \<^verbatim>\<open>str.isalnum\<close> on one character, for the code points 0 to 255: the ASCII digits and
  letters, and the Latin-1 letters and numeric characters.
\<close>

definition isalnum :: "char \<Rightarrow> bool" where
  "isalnum c =
     (let n = (of_char c :: nat) in
        (48 \<le> n \<and> n \<le> 57) \<or> (65 \<le> n \<and> n \<le> 90) \<or> (97 \<le> n \<and> n \<le> 122)
        \<or> n \<in> {170, 178, 179, 181, 185, 186, 188, 189, 190}
        \<or> (192 \<le> n \<and> n \<le> 214) \<or> (216 \<le> n \<and> n \<le> 246) \<or> 248 \<le> n)"

text \<open>
  The two scanning loops of \<^verbatim>\<open>get_next_token\<close>
  (\<^verbatim>\<open>while self.pos < len(self.regex) and self.regex[self.pos] != ']'\<close>, and the same with
  \<^verbatim>\<open>'}'\<close>): \<open>acc\<close> is the text accumulated so far, the result is the accumulated text and
  the input from the cursor on.
\<close>

fun scan_until :: "char \<Rightarrow> string \<Rightarrow> string \<Rightarrow> string \<times> string" where
  "scan_until d acc [] = (acc, [])"
| "scan_until d acc (c # cs) = (if c \<noteq> d then scan_until d (acc @ [c]) cs else (acc, c # cs))"

text \<open>
  \<^verbatim>\<open>Tokenizer.get_next_token\<close>, on the input from the cursor on. It returns the token (or
  \<^verbatim>\<open>None\<close> at the end of the input) and the input left after the final
  \<^verbatim>\<open>self.pos += 1\<close>.
\<close>

fun get_next_token :: "string \<Rightarrow> error + token option \<times> string" where
  "get_next_token [] = Inr (None, [])"
| "get_next_token (c # cs) =
     (if isalnum c \<or> c \<in> {CHR ''@'', CHR ''-'', CHR ''_'', CHR ''%'', CHR ''+'', CHR ''.''}
      then Inr (Some (Token CHAR_k [c]), cs)
      else if c = CHR 0x5C then
        (case cs of
           [] \<Rightarrow> Inl UnterminatedEscape
         | next_char # cs' \<Rightarrow> Inr (Some (Token ESCAPED_CHAR [next_char]), cs'))
      else if c = CHR ''*'' then Inr (Some (Token STAR [c]), cs)
      else if c = CHR ''|'' then Inr (Some (Token ALT [c]), cs)
      else if c = CHR ''.'' then Inr (Some (Token DOT [c]), cs)
      else if c = CHR ''^'' then Inr (Some (Token START [c]), cs)
      else if c = CHR ''$'' then Inr (Some (Token END [c]), cs)
      else if c = CHR ''['' then
        (case scan_until (CHR '']'') [] cs of
           (char_class, r) \<Rightarrow>
             (case r of
                [] \<Rightarrow> Inl UnterminatedClass
              | d # r' \<Rightarrow>
                  if d \<noteq> CHR '']'' then Inl UnterminatedClass
                  else Inr (Some (Token CLASS char_class), r')))
      else if c = CHR ''{'' then
        (case scan_until (CHR ''}'') [CHR ''{''] cs of
           (quantifier, r) \<Rightarrow>
             (case r of
                [] \<Rightarrow> Inl UnterminatedQuantifier
              | d # r' \<Rightarrow>
                  if d \<noteq> CHR ''}'' then Inl UnterminatedQuantifier
                  else Inr (Some (Token QUANT (quantifier @ [CHR ''}''])), r')))
      else if c = CHR ''('' then Inr (Some (Token LPAREN [c]), cs)
      else if c = CHR '')'' then Inr (Some (Token RPAREN [c]), cs)
      else Inl (UnsupportedCharacter c))"

text \<open>
  The loop of \<^verbatim>\<open>Tokenizer.tokenize\<close>: while input is left, take the next token and append
  it to \<open>tokens\<close> unless it is \<^verbatim>\<open>None\<close> (a \<^verbatim>\<open>Token\<close> object is always true in a condition).
\<close>

function tokenize_loop :: "string \<Rightarrow> token list \<Rightarrow> error + token list" where
  "tokenize_loop [] tokens = Inr tokens"
| "tokenize_loop (c # cs) tokens =
     (case get_next_token (c # cs) of
        Inl e \<Rightarrow> Inl e
      | Inr (token, s') \<Rightarrow>
          tokenize_loop s' (case token of None \<Rightarrow> tokens | Some t \<Rightarrow> tokens @ [t]))"
  by pat_completeness auto

definition tokenize :: "string \<Rightarrow> error + token list" where
  "tokenize regex_string = tokenize_loop regex_string []"

subsection \<open>The parser\<close>

text \<open>
  The loop of \<^verbatim>\<open>Parser.factor\<close>: every \<^verbatim>\<open>STAR\<close> or \<^verbatim>\<open>QUANT\<close> token wraps what has been
  built so far. \<^verbatim>\<open>Node('STAR', atom)\<close> leaves \<^verbatim>\<open>right\<close> at its default \<^verbatim>\<open>None\<close>;
  \<^verbatim>\<open>Node('QUANT', atom, quant)\<close> has the quantifier token as its right child.
\<close>

fun factor_loop :: "tree \<Rightarrow> token list \<Rightarrow> tree \<times> token list" where
  "factor_loop a [] = (a, [])"
| "factor_loop a (t # ts) =
     (if type_of t = STAR then factor_loop (Node STAR (Some a) None) ts
      else if type_of t = QUANT then factor_loop (Node QUANT (Some a) (Some (Tok t))) ts
      else (a, t # ts))"

text \<open>
  The four mutually recursive methods \<^verbatim>\<open>atom\<close>, \<^verbatim>\<open>factor\<close>, \<^verbatim>\<open>term\<close> and \<^verbatim>\<open>regex\<close>
  (\<^verbatim>\<open>term\<close> is written \<open>term_p\<close>), with the \<^verbatim>\<open>while\<close> loops of \<^verbatim>\<open>term\<close> and \<^verbatim>\<open>regex\<close> as
  \<open>term_loop\<close> and \<open>regex_loop\<close>. Each takes the tokens not yet consumed and returns
  the tree it built with the tokens left, or the exception it raised. \<^verbatim>\<open>atom\<close> reads
  \<^verbatim>\<open>self.current_token.type\<close> without a test for \<^verbatim>\<open>None\<close>: at the end of the tokens that
  is an \<^verbatim>\<open>AttributeError\<close>.
\<close>

function atom :: "token list \<Rightarrow> error + tree \<times> token list"
  and factor :: "token list \<Rightarrow> error + tree \<times> token list"
  and term_loop :: "tree \<Rightarrow> token list \<Rightarrow> error + tree \<times> token list"
  and term_p :: "token list \<Rightarrow> error + tree \<times> token list"
  and regex_loop :: "tree \<Rightarrow> token list \<Rightarrow> error + tree \<times> token list"
  and regex :: "token list \<Rightarrow> error + tree \<times> token list"
where
  "atom [] = Inl AttributeError"
| "atom (t # ts) =
     (if type_of t \<in> {CHAR_k, CLASS, DOT, START, END, ESCAPED_CHAR} then Inr (Tok t, ts)
      else if type_of t = LPAREN then
        (case regex ts of
           Inl e \<Rightarrow> Inl e
         | Inr (node, ts') \<Rightarrow>
             (case ts' of
                [] \<Rightarrow> Inl UnclosedGroup
              | t' # ts'' \<Rightarrow>
                  if type_of t' \<noteq> RPAREN then Inl UnclosedGroup
                  else Inr (Node GROUP (Some node) None, ts'')))
      else Inl (UnexpectedToken t))"
| "factor ts =
     (case atom ts of
        Inl e \<Rightarrow> Inl e
      | Inr (a, ts') \<Rightarrow> Inr (factor_loop a ts'))"
| "term_loop f [] = Inr (f, [])"
| "term_loop f (t # ts) =
     (if type_of t \<in> {CHAR_k, CLASS, DOT, START, END, ESCAPED_CHAR, LPAREN} then
        (case factor (t # ts) of
           Inl e \<Rightarrow> Inl e
         | Inr (f', ts') \<Rightarrow> term_loop (Node CONCAT (Some f) (Some f')) ts')
      else Inr (f, t # ts))"
| "term_p ts =
     (case factor ts of
        Inl e \<Rightarrow> Inl e
      | Inr (f, ts') \<Rightarrow> term_loop f ts')"
| "regex_loop tm [] = Inr (tm, [])"
| "regex_loop tm (t # ts) =
     (if type_of t = ALT then
        (case term_p ts of
           Inl e \<Rightarrow> Inl e
         | Inr (tm', ts') \<Rightarrow> regex_loop (Node ALT (Some tm) (Some tm')) ts')
      else Inr (tm, t # ts))"
| "regex ts =
     (case term_p ts of
        Inl e \<Rightarrow> Inl e
      | Inr (tm, ts') \<Rightarrow> regex_loop tm ts')"
  by pat_completeness auto

text \<open>
  \<^verbatim>\<open>Parser(tokens).parse()\<close>: the tree of \<^verbatim>\<open>regex()\<close>; the tokens that \<^verbatim>\<open>regex()\<close> left
  unconsumed are not looked at.
\<close>

definition parse :: "token list \<Rightarrow> error + tree" where
  "parse tokens = (case regex tokens of Inl e \<Rightarrow> Inl e | Inr (node, ts') \<Rightarrow> Inr node)"

subsection \<open>The serializer\<close>

text \<open>
  \<^verbatim>\<open>compile(tree)\<close> dispatches on \<^verbatim>\<open>tree.type\<close>, in the order of the source. A \<^verbatim>\<open>Token\<close>
  has a \<^verbatim>\<open>value\<close> but no \<^verbatim>\<open>left\<close> or \<^verbatim>\<open>right\<close>, a \<^verbatim>\<open>Node\<close> has \<^verbatim>\<open>left\<close> and \<^verbatim>\<open>right\<close> but
  no \<^verbatim>\<open>value\<close>, and \<^verbatim>\<open>None\<close> has no \<^verbatim>\<open>type\<close>: reading an attribute that is not there is
  an \<^verbatim>\<open>AttributeError\<close>. In an f-string the parts are evaluated from left to right.
\<close>

fun compile :: "tree \<Rightarrow> error + string" where
  "compile (Tok (Token k v)) =
     (if k = CHAR_k then Inr v
      else if k = STAR then Inl AttributeError
      else if k = CONCAT then Inl AttributeError
      else if k = ALT then Inl AttributeError
      else if k = CLASS then Inr (''['' @ v @ '']'')
      else if k = DOT then Inr ''.''
      else if k = START then Inr ''^''
      else if k = END then Inr ''$''
      else if k = ESCAPED_CHAR then Inr (CHR 0x5C # v)
      else if k = QUANT then Inl AttributeError
      else if k = GROUP then Inl AttributeError
      else Inl (UnknownNodeKind k))"
| "compile (Node k l r) =
     (if k = CHAR_k then Inl AttributeError
      else if k = STAR then
        (case (case l of None \<Rightarrow> Inl AttributeError | Some x \<Rightarrow> compile x) of
           Inl e \<Rightarrow> Inl e
         | Inr s \<Rightarrow> Inr (''('' @ s @ '')*''))
      else if k = CONCAT then
        (case (case l of None \<Rightarrow> Inl AttributeError | Some x \<Rightarrow> compile x) of
           Inl e \<Rightarrow> Inl e
         | Inr s1 \<Rightarrow>
             (case (case r of None \<Rightarrow> Inl AttributeError | Some y \<Rightarrow> compile y) of
                Inl e \<Rightarrow> Inl e
              | Inr s2 \<Rightarrow> Inr (s1 @ s2)))
      else if k = ALT then
        (case (case l of None \<Rightarrow> Inl AttributeError | Some x \<Rightarrow> compile x) of
           Inl e \<Rightarrow> Inl e
         | Inr s1 \<Rightarrow>
             (case (case r of None \<Rightarrow> Inl AttributeError | Some y \<Rightarrow> compile y) of
                Inl e \<Rightarrow> Inl e
              | Inr s2 \<Rightarrow> Inr (''('' @ s1 @ ''|'' @ s2 @ '')'')))
      else if k = CLASS then Inl AttributeError
      else if k = DOT then Inr ''.''
      else if k = START then Inr ''^''
      else if k = END then Inr ''$''
      else if k = ESCAPED_CHAR then Inl AttributeError
      else if k = QUANT then
        (case (case l of None \<Rightarrow> Inl AttributeError | Some x \<Rightarrow> compile x) of
           Inl e \<Rightarrow> Inl e
         | Inr s \<Rightarrow>
             (case r of
                Some (Tok q) \<Rightarrow> Inr (s @ value_of q)
              | _ \<Rightarrow> Inl AttributeError))
      else if k = GROUP then
        (case (case l of None \<Rightarrow> Inl AttributeError | Some x \<Rightarrow> compile x) of
           Inl e \<Rightarrow> Inl e
         | Inr s \<Rightarrow> Inr (''('' @ s @ '')''))
      else Inl (UnknownNodeKind k))"

subsection \<open>The parser and the serializer under the recursion limit\<close>

text \<open>
  Python raises \<^verbatim>\<open>RecursionError\<close> when a call would make the stack deeper than
  \<^verbatim>\<open>sys.getrecursionlimit()\<close>, which is 1000 unless it is changed; the source does not
  change it. In the functions below \<open>d\<close> is the number of frames that are free when the
  method is called: with \<open>d = 0\<close> the call raises \<open>RecursionError\<close>, otherwise the method
  runs in one frame and the methods it calls have \<open>d - 1\<close>. The loops of \<^verbatim>\<open>term\<close> and
  \<^verbatim>\<open>regex\<close> run inside the frame of their method, so \<open>term_loop_d d\<close> and
  \<open>regex_loop_d d\<close> take the \<open>d\<close> of that method. The frames counted are those of
  \<^verbatim>\<open>parse\<close>, \<^verbatim>\<open>regex\<close>, \<^verbatim>\<open>term\<close>, \<^verbatim>\<open>factor\<close>, \<^verbatim>\<open>atom\<close> and \<^verbatim>\<open>compile\<close>, which nest; the calls
  that return at once (\<^verbatim>\<open>advance\<close>, the constructors, \<^verbatim>\<open>__repr__\<close>) and what the
  interpreter pushes of its own are not counted, so the interpreter reaches its limit no
  later than these functions do. The script calls \<^verbatim>\<open>parser.parse()\<close> and \<^verbatim>\<open>compile(tree)\<close>
  from the module, whose frame is the first of the 1000: there \<open>d\<close> is 999. Except for
  the tests on \<open>d\<close>, each function is the one of the same name above; the loop of
  \<^verbatim>\<open>factor\<close> makes no counted call and is \<open>factor_loop\<close> as it is.
\<close>

function atom_d :: "nat \<Rightarrow> token list \<Rightarrow> error + tree \<times> token list"
  and factor_d :: "nat \<Rightarrow> token list \<Rightarrow> error + tree \<times> token list"
  and term_loop_d :: "nat \<Rightarrow> tree \<Rightarrow> token list \<Rightarrow> error + tree \<times> token list"
  and term_d :: "nat \<Rightarrow> token list \<Rightarrow> error + tree \<times> token list"
  and regex_loop_d :: "nat \<Rightarrow> tree \<Rightarrow> token list \<Rightarrow> error + tree \<times> token list"
  and regex_d :: "nat \<Rightarrow> token list \<Rightarrow> error + tree \<times> token list"
where
  "atom_d d [] = (if d = 0 then Inl RecursionError else Inl AttributeError)"
| "atom_d d (t # ts) =
     (if d = 0 then Inl RecursionError
      else if type_of t \<in> {CHAR_k, CLASS, DOT, START, END, ESCAPED_CHAR} then Inr (Tok t, ts)
      else if type_of t = LPAREN then
        (case regex_d (d - 1) ts of
           Inl e \<Rightarrow> Inl e
         | Inr (node, ts') \<Rightarrow>
             (case ts' of
                [] \<Rightarrow> Inl UnclosedGroup
              | t' # ts'' \<Rightarrow>
                  if type_of t' \<noteq> RPAREN then Inl UnclosedGroup
                  else Inr (Node GROUP (Some node) None, ts'')))
      else Inl (UnexpectedToken t))"
| "factor_d d ts =
     (if d = 0 then Inl RecursionError
      else case atom_d (d - 1) ts of
        Inl e \<Rightarrow> Inl e
      | Inr (a, ts') \<Rightarrow> Inr (factor_loop a ts'))"
| "term_loop_d d f [] = Inr (f, [])"
| "term_loop_d d f (t # ts) =
     (if type_of t \<in> {CHAR_k, CLASS, DOT, START, END, ESCAPED_CHAR, LPAREN} then
        (case factor_d (d - 1) (t # ts) of
           Inl e \<Rightarrow> Inl e
         | Inr (f', ts') \<Rightarrow> term_loop_d d (Node CONCAT (Some f) (Some f')) ts')
      else Inr (f, t # ts))"
| "term_d d ts =
     (if d = 0 then Inl RecursionError
      else case factor_d (d - 1) ts of
        Inl e \<Rightarrow> Inl e
      | Inr (f, ts') \<Rightarrow> term_loop_d d f ts')"
| "regex_loop_d d tm [] = Inr (tm, [])"
| "regex_loop_d d tm (t # ts) =
     (if type_of t = ALT then
        (case term_d (d - 1) ts of
           Inl e \<Rightarrow> Inl e
         | Inr (tm', ts') \<Rightarrow> regex_loop_d d (Node ALT (Some tm) (Some tm')) ts')
      else Inr (tm, t # ts))"
| "regex_d d ts =
     (if d = 0 then Inl RecursionError
      else case term_d (d - 1) ts of
        Inl e \<Rightarrow> Inl e
      | Inr (tm, ts') \<Rightarrow> regex_loop_d d tm ts')"
  by pat_completeness auto

definition parse_d :: "nat \<Rightarrow> token list \<Rightarrow> error + tree" where
  "parse_d d tokens =
     (if d = 0 then Inl RecursionError
      else case regex_d (d - 1) tokens of Inl e \<Rightarrow> Inl e | Inr (node, ts') \<Rightarrow> Inr node)"

text \<open>
  \<^verbatim>\<open>compile\<close> with \<open>d\<close> free frames. A child that is \<^verbatim>\<open>None\<close> is still passed to
  \<^verbatim>\<open>compile\<close>, which needs a frame before it fails on \<^verbatim>\<open>tree.type\<close>.
\<close>

fun compile_d :: "nat \<Rightarrow> tree \<Rightarrow> error + string" where
  "compile_d d (Tok (Token k v)) =
     (if d = 0 then Inl RecursionError
      else if k = CHAR_k then Inr v
      else if k = STAR then Inl AttributeError
      else if k = CONCAT then Inl AttributeError
      else if k = ALT then Inl AttributeError
      else if k = CLASS then Inr (''['' @ v @ '']'')
      else if k = DOT then Inr ''.''
      else if k = START then Inr ''^''
      else if k = END then Inr ''$''
      else if k = ESCAPED_CHAR then Inr (CHR 0x5C # v)
      else if k = QUANT then Inl AttributeError
      else if k = GROUP then Inl AttributeError
      else Inl (UnknownNodeKind k))"
| "compile_d d (Node k l r) =
     (if d = 0 then Inl RecursionError
      else if k = CHAR_k then Inl AttributeError
      else if k = STAR then
        (case (case l of None \<Rightarrow> if d - 1 = 0 then Inl RecursionError else Inl AttributeError
               | Some x \<Rightarrow> compile_d (d - 1) x) of
           Inl e \<Rightarrow> Inl e
         | Inr s \<Rightarrow> Inr (''('' @ s @ '')*''))
      else if k = CONCAT then
        (case (case l of None \<Rightarrow> if d - 1 = 0 then Inl RecursionError else Inl AttributeError
               | Some x \<Rightarrow> compile_d (d - 1) x) of
           Inl e \<Rightarrow> Inl e
         | Inr s1 \<Rightarrow>
             (case (case r of
                      None \<Rightarrow> if d - 1 = 0 then Inl RecursionError else Inl AttributeError
                    | Some y \<Rightarrow> compile_d (d - 1) y) of
                Inl e \<Rightarrow> Inl e
              | Inr s2 \<Rightarrow> Inr (s1 @ s2)))
      else if k = ALT then
        (case (case l of None \<Rightarrow> if d - 1 = 0 then Inl RecursionError else Inl AttributeError
               | Some x \<Rightarrow> compile_d (d - 1) x) of
           Inl e \<Rightarrow> Inl e
         | Inr s1 \<Rightarrow>
             (case (case r of
                      None \<Rightarrow> if d - 1 = 0 then Inl RecursionError else Inl AttributeError
                    | Some y \<Rightarrow> compile_d (d - 1) y) of
                Inl e \<Rightarrow> Inl e
              | Inr s2 \<Rightarrow> Inr (''('' @ s1 @ ''|'' @ s2 @ '')'')))
      else if k = CLASS then Inl AttributeError
      else if k = DOT then Inr ''.''
      else if k = START then Inr ''^''
      else if k = END then Inr ''$''
      else if k = ESCAPED_CHAR then Inl AttributeError
      else if k = QUANT then
        (case (case l of None \<Rightarrow> if d - 1 = 0 then Inl RecursionError else Inl AttributeError
               | Some x \<Rightarrow> compile_d (d - 1) x) of
           Inl e \<Rightarrow> Inl e
         | Inr s \<Rightarrow>
             (case r of
                Some (Tok q) \<Rightarrow> Inr (s @ value_of q)
              | _ \<Rightarrow> Inl AttributeError))
      else if k = GROUP then
        (case (case l of None \<Rightarrow> if d - 1 = 0 then Inl RecursionError else Inl AttributeError
               | Some x \<Rightarrow> compile_d (d - 1) x) of
           Inl e \<Rightarrow> Inl e
         | Inr s \<Rightarrow> Inr (''('' @ s @ '')''))
      else Inl (UnknownNodeKind k))"

section \<open>Notions used to state and prove the properties\<close>

subsection \<open>Tokens and their source text\<close>

text \<open>
  The characters of the pattern that a token stands for: a \<^verbatim>\<open>CLASS\<close> token keeps the text
  between the brackets, an \<^verbatim>\<open>ESCAPED_CHAR\<close> token the character after the backslash, every
  other token its own characters (for \<^verbatim>\<open>QUANT\<close>, braces included).
\<close>

definition lexeme :: "token \<Rightarrow> string" where
  "lexeme t =
     (if type_of t = ESCAPED_CHAR then CHR 0x5C # value_of t
      else if type_of t = CLASS then ''['' @ value_of t @ '']''
      else value_of t)"

text \<open>The condition of the first branch of \<^verbatim>\<open>get_next_token\<close>.\<close>

definition char_branch :: "char \<Rightarrow> bool" where
  "char_branch c \<longleftrightarrow>
     isalnum c \<or> c \<in> {CHR ''@'', CHR ''-'', CHR ''_'', CHR ''%'', CHR ''+'', CHR ''.''}"

text \<open>The tokens that the tokenizer can produce, kind by kind.\<close>

definition lexed :: "token \<Rightarrow> bool" where
  "lexed t =
     (case type_of t of
        CHAR_k \<Rightarrow> (\<exists>c. value_of t = [c] \<and> char_branch c)
      | ESCAPED_CHAR \<Rightarrow> (\<exists>c. value_of t = [c])
      | STAR \<Rightarrow> value_of t = ''*''
      | ALT \<Rightarrow> value_of t = ''|''
      | START \<Rightarrow> value_of t = ''^''
      | END \<Rightarrow> value_of t = ''$''
      | CLASS \<Rightarrow> CHR '']'' \<notin> set (value_of t)
      | QUANT \<Rightarrow> (\<exists>b. value_of t = ''{'' @ b @ ''}'' \<and> CHR ''}'' \<notin> set b)
      | LPAREN \<Rightarrow> value_of t = ''(''
      | RPAREN \<Rightarrow> value_of t = '')''
      | _ \<Rightarrow> False)"

subsection \<open>Trees\<close>

text \<open>
  What one step of the loop of \<^verbatim>\<open>factor\<close> builds from the tree so far and a postfix
  token.
\<close>

definition postfix_node :: "tree \<Rightarrow> token \<Rightarrow> tree" where
  "postfix_node a p =
     (if type_of p = STAR then Node STAR (Some a) None else Node QUANT (Some a) (Some (Tok p)))"

text \<open>The type tags that occur in a tree: those that \<^verbatim>\<open>compile\<close> can dispatch on.\<close>

fun tree_kinds :: "tree \<Rightarrow> kind set" where
  "tree_kinds (Tok t) = {type_of t}"
| "tree_kinds (Node k l r) =
     {k} \<union> (case l of None \<Rightarrow> {} | Some x \<Rightarrow> tree_kinds x)
         \<union> (case r of None \<Rightarrow> {} | Some y \<Rightarrow> tree_kinds y)"

text \<open>
  The shapes of tree that the parser builds, over tokens that satisfy \<open>P\<close>: a leaf token,
  or one of the five kinds of \<^verbatim>\<open>Node\<close> with the children the parser gives it.
\<close>

inductive parsed :: "(token \<Rightarrow> bool) \<Rightarrow> tree \<Rightarrow> bool" for P :: "token \<Rightarrow> bool" where
  leaf: "type_of t \<in> {CHAR_k, CLASS, DOT, START, END, ESCAPED_CHAR} \<Longrightarrow> P t \<Longrightarrow> parsed P (Tok t)"
| star: "parsed P x \<Longrightarrow> parsed P (Node STAR (Some x) None)"
| quant: "parsed P x \<Longrightarrow> type_of q = QUANT \<Longrightarrow> P q \<Longrightarrow>
    parsed P (Node QUANT (Some x) (Some (Tok q)))"
| concat: "parsed P x \<Longrightarrow> parsed P y \<Longrightarrow> parsed P (Node CONCAT (Some x) (Some y))"
| alt: "parsed P x \<Longrightarrow> parsed P y \<Longrightarrow> parsed P (Node ALT (Some x) (Some y))"
| group: "parsed P x \<Longrightarrow> parsed P (Node GROUP (Some x) None)"

text \<open>The tokens of the string that \<^verbatim>\<open>compile\<close> writes for a tree.\<close>

fun tokens_of :: "tree \<Rightarrow> token list" where
  "tokens_of (Tok t) = [t]"
| "tokens_of (Node k l r) =
     (let ls = (case l of None \<Rightarrow> [] | Some x \<Rightarrow> tokens_of x);
          rs = (case r of None \<Rightarrow> [] | Some y \<Rightarrow> tokens_of y)
      in if k = STAR then Token LPAREN ''('' # ls @ [Token RPAREN '')'', Token STAR ''*'']
         else if k = ALT then Token LPAREN ''('' # ls @ Token ALT ''|'' # rs @ [Token RPAREN '')'']
         else if k = GROUP then Token LPAREN ''('' # ls @ [Token RPAREN '')'']
         else ls @ rs)"

text \<open>
  The pattern \<^verbatim>\<open>a\<close> followed by \<open>n\<close> stars, what the pipeline makes of it: its tree, the
  string that \<^verbatim>\<open>compile\<close> writes for the tree, and the tokens of that string.
\<close>

fun stars :: "nat \<Rightarrow> tree" where
  "stars 0 = Tok (Token CHAR_k ''a'')"
| "stars (Suc n) = Node STAR (Some (stars n)) None"

fun stars_string :: "nat \<Rightarrow> string" where
  "stars_string 0 = ''a''"
| "stars_string (Suc n) = ''('' @ stars_string n @ '')*''"

fun stars_tokens :: "nat \<Rightarrow> token list" where
  "stars_tokens 0 = [Token CHAR_k ''a'']"
| "stars_tokens (Suc n) =
     Token LPAREN ''('' # stars_tokens n @ [Token RPAREN '')'', Token STAR ''*'']"

subsection \<open>States of the parser inside a sequence of factors\<close>

text \<open>
  \<open>comb fo a\<close> is the tree of \<^verbatim>\<open>term\<close> once the factor \<open>a\<close> is complete, \<open>fo\<close> being the
  tree of the factors before it, if any. \<open>seq fo ts\<close> is \<^verbatim>\<open>term\<close> about to parse a factor
  from \<open>ts\<close>; \<open>cont fo a rest\<close> is \<^verbatim>\<open>term\<close> inside the loop of \<^verbatim>\<open>factor\<close>, with \<open>a\<close> built
  so far.
\<close>

definition comb :: "tree option \<Rightarrow> tree \<Rightarrow> tree" where
  "comb fo a = (case fo of None \<Rightarrow> a | Some f \<Rightarrow> Node CONCAT (Some f) (Some a))"

definition seq :: "tree option \<Rightarrow> token list \<Rightarrow> error + tree \<times> token list" where
  "seq fo ts = (case factor ts of Inl e \<Rightarrow> Inl e | Inr (f', r) \<Rightarrow> term_loop (comb fo f') r)"

definition cont :: "tree option \<Rightarrow> tree \<Rightarrow> token list \<Rightarrow> error + tree \<times> token list" where
  "cont fo a rest = (case factor_loop a rest of (a', r') \<Rightarrow> term_loop (comb fo a') r')"

definition starts_atom :: "token \<Rightarrow> bool" where
  "starts_atom t \<longleftrightarrow> type_of t \<in> {CHAR_k, CLASS, DOT, START, END, ESCAPED_CHAR, LPAREN}"

section \<open>Termination\<close>

text \<open>
  Every function returns: the scanning loops and \<open>get_next_token\<close> never lengthen the
  input, \<open>get_next_token\<close> consumes at least one character of a non-empty input, and every
  method of the parser that returns a tree has consumed at least one token (the loops: not
  added any).
\<close>

lemma scan_until_length: "scan_until d acc s = (a, r) \<Longrightarrow> length r \<le> length s"
  by (induction s arbitrary: acc) (fastforce split: if_splits)+

lemma get_next_token_length:
  "get_next_token (c # cs) = Inr (tok, s') \<Longrightarrow> length s' \<le> length cs"
  by (fastforce split: if_splits list.splits prod.splits dest: scan_until_length)

termination tokenize_loop
  by (relation "measure (\<lambda>(s, tokens). length s)")
    (auto simp del: get_next_token.simps dest!: get_next_token_length)

lemma factor_loop_length: "factor_loop a ts = (x, r) \<Longrightarrow> length r \<le> length ts"
  by (induction ts arbitrary: a) (fastforce split: if_splits)+

lemma parser_length_dom:
  "atom_factor_term_loop_term_p_regex_loop_regex_dom (Inl (Inl ts1)) \<Longrightarrow>
     atom ts1 = Inr (x1, r1) \<Longrightarrow> length r1 < length ts1"
  "atom_factor_term_loop_term_p_regex_loop_regex_dom (Inl (Inr (Inl ts2))) \<Longrightarrow>
     factor ts2 = Inr (x2, r2) \<Longrightarrow> length r2 < length ts2"
  "atom_factor_term_loop_term_p_regex_loop_regex_dom (Inl (Inr (Inr (f3, ts3)))) \<Longrightarrow>
     term_loop f3 ts3 = Inr (x3, r3) \<Longrightarrow> length r3 \<le> length ts3"
  "atom_factor_term_loop_term_p_regex_loop_regex_dom (Inr (Inl ts4)) \<Longrightarrow>
     term_p ts4 = Inr (x4, r4) \<Longrightarrow> length r4 < length ts4"
  "atom_factor_term_loop_term_p_regex_loop_regex_dom (Inr (Inr (Inl (f5, ts5)))) \<Longrightarrow>
     regex_loop f5 ts5 = Inr (x5, r5) \<Longrightarrow> length r5 \<le> length ts5"
  "atom_factor_term_loop_term_p_regex_loop_regex_dom (Inr (Inr (Inr ts6))) \<Longrightarrow>
     regex ts6 = Inr (x6, r6) \<Longrightarrow> length r6 < length ts6"
proof (induct arbitrary: x1 r1 and x2 r2 and x3 r3 and x4 r4 and x5 r5 and x6 r6
    rule: atom_factor_term_loop_term_p_regex_loop_regex.pinduct)
  case 1
  then show ?case by (simp add: atom.psimps)
next
  case (2 t ts)
  then show ?case
    by (fastforce simp: atom.psimps split: if_splits sum.splits list.splits prod.splits)
next
  case (3 ts)
  then show ?case
    by (fastforce simp: factor.psimps split: sum.splits prod.splits dest: factor_loop_length)
next
  case (4 f)
  then show ?case by (simp add: term_loop.psimps)
next
  case (5 f t ts)
  then show ?case
    by (fastforce simp: term_loop.psimps split: if_splits sum.splits prod.splits)
next
  case (6 ts)
  then show ?case
    by (fastforce simp: term_p.psimps split: sum.splits prod.splits)
next
  case (7 tm)
  then show ?case by (simp add: regex_loop.psimps)
next
  case (8 tm t ts)
  then show ?case
    by (fastforce simp: regex_loop.psimps split: if_splits sum.splits prod.splits)
next
  case (9 ts)
  then show ?case
    by (fastforce simp: regex.psimps split: sum.splits prod.splits)
qed

termination atom
  by (relation "measure (\<lambda>x. case x of
      Inl (Inl ts) \<Rightarrow> 6 * length ts
    | Inl (Inr (Inl ts)) \<Rightarrow> 6 * length ts + 1
    | Inl (Inr (Inr (f, ts))) \<Rightarrow> 6 * length ts + 2
    | Inr (Inl ts) \<Rightarrow> 6 * length ts + 3
    | Inr (Inr (Inl (f, ts))) \<Rightarrow> 6 * length ts + 4
    | Inr (Inr (Inr ts)) \<Rightarrow> 6 * length ts + 5)")
    (auto dest: parser_length_dom)

text \<open>The same for the methods under the recursion limit.\<close>

lemma parser_d_length_dom:
  "atom_d_factor_d_term_loop_d_term_d_regex_loop_d_regex_d_dom (Inl (Inl (d1, ts1))) \<Longrightarrow>
     atom_d d1 ts1 = Inr (x1, r1) \<Longrightarrow> length r1 < length ts1"
  "atom_d_factor_d_term_loop_d_term_d_regex_loop_d_regex_d_dom (Inl (Inr (Inl (d2, ts2)))) \<Longrightarrow>
     factor_d d2 ts2 = Inr (x2, r2) \<Longrightarrow> length r2 < length ts2"
  "atom_d_factor_d_term_loop_d_term_d_regex_loop_d_regex_d_dom (Inl (Inr (Inr (d3, f3, ts3)))) \<Longrightarrow>
     term_loop_d d3 f3 ts3 = Inr (x3, r3) \<Longrightarrow> length r3 \<le> length ts3"
  "atom_d_factor_d_term_loop_d_term_d_regex_loop_d_regex_d_dom (Inr (Inl (d4, ts4))) \<Longrightarrow>
     term_d d4 ts4 = Inr (x4, r4) \<Longrightarrow> length r4 < length ts4"
  "atom_d_factor_d_term_loop_d_term_d_regex_loop_d_regex_d_dom (Inr (Inr (Inl (d5, f5, ts5)))) \<Longrightarrow>
     regex_loop_d d5 f5 ts5 = Inr (x5, r5) \<Longrightarrow> length r5 \<le> length ts5"
  "atom_d_factor_d_term_loop_d_term_d_regex_loop_d_regex_d_dom (Inr (Inr (Inr (d6, ts6)))) \<Longrightarrow>
     regex_d d6 ts6 = Inr (x6, r6) \<Longrightarrow> length r6 < length ts6"
proof (induct arbitrary: x1 r1 and x2 r2 and x3 r3 and x4 r4 and x5 r5 and x6 r6
    rule: atom_d_factor_d_term_loop_d_term_d_regex_loop_d_regex_d.pinduct)
  case (1 d)
  then show ?case by (simp add: atom_d.psimps split: if_splits)
next
  case (2 d t ts)
  then show ?case
    by (fastforce simp: atom_d.psimps split: if_splits sum.splits list.splits prod.splits)
next
  case (3 d ts)
  then show ?case
    by (fastforce simp: factor_d.psimps split: if_splits sum.splits prod.splits
        dest: factor_loop_length)
next
  case (4 d f)
  then show ?case by (simp add: term_loop_d.psimps)
next
  case (5 d f t ts)
  then show ?case
    by (fastforce simp: term_loop_d.psimps split: if_splits sum.splits prod.splits)
next
  case (6 d ts)
  then show ?case
    by (fastforce simp: term_d.psimps split: if_splits sum.splits prod.splits)
next
  case (7 d tm)
  then show ?case by (simp add: regex_loop_d.psimps)
next
  case (8 d tm t ts)
  then show ?case
    by (fastforce simp: regex_loop_d.psimps split: if_splits sum.splits prod.splits)
next
  case (9 d ts)
  then show ?case
    by (fastforce simp: regex_d.psimps split: if_splits sum.splits prod.splits)
qed

termination atom_d
  by (relation "measure (\<lambda>x. case x of
      Inl (Inl (d, ts)) \<Rightarrow> 6 * length ts
    | Inl (Inr (Inl (d, ts))) \<Rightarrow> 6 * length ts + 1
    | Inl (Inr (Inr (d, f, ts))) \<Rightarrow> 6 * length ts + 2
    | Inr (Inl (d, ts)) \<Rightarrow> 6 * length ts + 3
    | Inr (Inr (Inl (d, f, ts))) \<Rightarrow> 6 * length ts + 4
    | Inr (Inr (Inr (d, ts))) \<Rightarrow> 6 * length ts + 5)")
    (auto dest: parser_d_length_dom)

section \<open>The tokenizer: tokens and the text they stand for\<close>

text \<open>
  A scan stops at the first delimiter. Each call of \<open>get_next_token\<close> on a non-empty input
  returns a \<open>lexed\<close> token and consumes exactly its lexeme; conversely, on the lexeme of a
  \<open>lexed\<close> token followed by anything, it returns that token and the rest. So \<open>tokenize\<close>
  splits its input into lexemes, and the lexemes of \<open>lexed\<close> tokens are tokenized back to
  these tokens.
\<close>

lemma scan_until_stop:
  "d \<notin> set b \<Longrightarrow> scan_until d acc (b @ d # rest) = (acc @ b, d # rest)"
  by (induction b arbitrary: acc) auto

lemma scan_until_result:
  "scan_until d acc s = (a, r) \<Longrightarrow>
     \<exists>b. a = acc @ b \<and> d \<notin> set b \<and> s = b @ r \<and> (r = [] \<or> hd r = d)"
proof (induction s arbitrary: acc)
  case Nil
  then show ?case by simp
next
  case (Cons c cs)
  show ?case
  proof (cases "c = d")
    case True
    with Cons.prems have "a = acc @ [] \<and> d \<notin> set [] \<and> c # cs = [] @ r \<and> (r = [] \<or> hd r = d)"
      by auto
    then show ?thesis by blast
  next
    case False
    with Cons.prems have "scan_until d (acc @ [c]) cs = (a, r)" by simp
    from Cons.IH[OF this] obtain b where
      "a = (acc @ [c]) @ b" "d \<notin> set b" "cs = b @ r" "r = [] \<or> hd r = d" by blast
    with False have "a = acc @ (c # b) \<and> d \<notin> set (c # b) \<and> c # cs = (c # b) @ r
        \<and> (r = [] \<or> hd r = d)" by simp
    then show ?thesis by blast
  qed
qed

lemma lexeme_Token [simp]:
  "lexeme (Token k v) =
     (if k = ESCAPED_CHAR then CHR 0x5C # v else if k = CLASS then ''['' @ v @ '']'' else v)"
  by (simp add: lexeme_def)

lemma lexed_Token [simp]:
  "lexed (Token CHAR_k v) = (\<exists>c. v = [c] \<and> char_branch c)"
  "lexed (Token ESCAPED_CHAR v) = (\<exists>c. v = [c])"
  "lexed (Token STAR v) = (v = ''*'')"
  "lexed (Token ALT v) = (v = ''|'')"
  "lexed (Token DOT v) = False"
  "lexed (Token START v) = (v = ''^'')"
  "lexed (Token END v) = (v = ''$'')"
  "lexed (Token CLASS v) = (CHR '']'' \<notin> set v)"
  "lexed (Token QUANT v) = (\<exists>b. v = ''{'' @ b @ ''}'' \<and> CHR ''}'' \<notin> set b)"
  "lexed (Token LPAREN v) = (v = ''('')"
  "lexed (Token RPAREN v) = (v = '')'')"
  "lexed (Token CONCAT v) = False"
  "lexed (Token GROUP v) = False"
  by (simp_all add: lexed_def)

lemma get_next_token_lexed:
  assumes "get_next_token (c # cs) = Inr (tok, s')"
  shows "\<exists>t. tok = Some t \<and> lexed t \<and> c # cs = lexeme t @ s'"
proof (cases "char_branch c")
  case True
  with assms have "tok = Some (Token CHAR_k [c])" "s' = cs" by (auto simp: char_branch_def)
  with True show ?thesis by simp
next
  case nc: False
  show ?thesis
  proof (cases "c = CHR ''[''")
    case True
    obtain a r where sc: "scan_until (CHR '']'') [] cs = (a, r)" by (cases "scan_until (CHR '']'') [] cs")
    from scan_until_result[OF sc] obtain b where b: "a = b" "CHR '']'' \<notin> set b" "cs = b @ r" by auto
    from assms nc True sc obtain r' where "r = CHR '']'' # r'" "tok = Some (Token CLASS a)" "s' = r'"
      by (auto simp: char_branch_def split: list.splits if_splits)
    with b True show ?thesis by simp
  next
    case nb: False
    show ?thesis
    proof (cases "c = CHR ''{''")
      case True
      obtain a r where sc: "scan_until (CHR ''}'') ''{'' cs = (a, r)" by (cases "scan_until (CHR ''}'') ''{'' cs")
      from scan_until_result[OF sc] obtain b where b: "a = ''{'' @ b" "CHR ''}'' \<notin> set b" "cs = b @ r" by auto
      from assms nc True sc obtain r' where "r = CHR ''}'' # r'" "tok = Some (Token QUANT (a @ ''}''))" "s' = r'"
        by (auto simp: char_branch_def split: list.splits if_splits)
      with b True show ?thesis by simp
    next
      case False
      with assms nc nb show ?thesis
        by (auto simp: char_branch_def split: if_splits list.splits)
    qed
  qed
qed

lemma get_next_token_lexeme:
  assumes "lexed t"
  shows "get_next_token (lexeme t @ rest) = Inr (Some t, rest)"
proof (cases t)
  case (Token k v)
  show ?thesis
  proof (cases k)
    case CHAR_k
    with assms Token show ?thesis by (auto simp: char_branch_def)
  next
    case CLASS
    with assms Token have "CHR '']'' \<notin> set v" by simp
    from scan_until_stop[OF this, of "[]" rest] Token CLASS show ?thesis
      by (simp add: isalnum_def)
  next
    case QUANT
    with assms Token obtain b where b: "v = ''{'' @ b @ ''}''" "CHR ''}'' \<notin> set b"
      by auto
    from scan_until_stop[OF b(2), of "''{''" rest] Token QUANT b(1) show ?thesis
      by (simp add: isalnum_def)
  qed (use assms Token in \<open>auto simp: isalnum_def\<close>)
qed

lemma lexeme_nonempty: "lexed t \<Longrightarrow> lexeme t \<noteq> []"
  by (cases t; cases "type_of t") auto

lemma tokenize_loop_lexemes:
  "\<forall>t \<in> set ts. lexed t \<Longrightarrow> tokenize_loop (concat (map lexeme ts)) acc = Inr (acc @ ts)"
proof (induction ts arbitrary: acc)
  case Nil
  then show ?case by simp
next
  case (Cons t ts)
  then have lt: "lexed t" by simp
  obtain c cs where l: "lexeme t = c # cs" using lexeme_nonempty[OF lt] by (cases "lexeme t") auto
  have "get_next_token (c # cs @ concat (map lexeme ts)) = Inr (Some t, concat (map lexeme ts))"
    using get_next_token_lexeme[OF lt, of "concat (map lexeme ts)"] l by simp
  then have "tokenize_loop (concat (map lexeme (t # ts))) acc
      = tokenize_loop (concat (map lexeme ts)) (acc @ [t])"
    using l by (simp del: get_next_token.simps)
  with Cons show ?case by simp
qed

lemma tokenize_loop_lexed:
  "tokenize_loop s acc = Inr ts \<Longrightarrow>
     \<exists>new. ts = acc @ new \<and> (\<forall>t \<in> set new. lexed t) \<and> concat (map lexeme new) = s"
proof (induction s acc arbitrary: ts rule: tokenize_loop.induct)
  case (1 tokens)
  then show ?case by simp
next
  case (2 c cs tokens)
  from "2.prems" obtain tok s' where g: "get_next_token (c # cs) = Inr (tok, s')"
    by (auto simp del: get_next_token.simps split: sum.splits)
  from get_next_token_lexed[OF g] obtain t where t: "tok = Some t" "lexed t" "c # cs = lexeme t @ s'"
    by blast
  from "2.prems" g t(1) have "tokenize_loop s' (tokens @ [t]) = Inr ts"
    by (simp del: get_next_token.simps)
  from "2.IH"[OF g refl, of ts] this t(1) obtain new where
    "ts = (tokens @ [t]) @ new" "\<forall>t \<in> set new. lexed t" "concat (map lexeme new) = s'"
    by auto
  with t have "ts = tokens @ (t # new) \<and> (\<forall>t \<in> set (t # new). lexed t)
      \<and> concat (map lexeme (t # new)) = c # cs" by simp
  then show ?case by blast
qed

section \<open>The parser: the trees it builds\<close>

text \<open>
  By induction along the recursion of the parser: every tree it returns has one of the
  shapes of \<open>parsed\<close>, over the tokens it was given, and the tokens it leaves are among
  those it was given.
\<close>

lemma lexed_not_DOT: "lexed t \<Longrightarrow> type_of t \<noteq> DOT"
  by (cases t) auto

lemma factor_loop_parsed:
  "parsed P a \<Longrightarrow> \<forall>tk \<in> set ts. P tk \<Longrightarrow> factor_loop a ts = (x, r) \<Longrightarrow>
     parsed P x \<and> set r \<subseteq> set ts"
proof (induction ts arbitrary: a)
  case Nil
  then show ?case by simp
next
  case (Cons t ts)
  show ?case
  proof (cases "type_of t = STAR")
    case True
    with Cons.prems have "factor_loop (Node STAR (Some a) None) ts = (x, r)" by simp
    from Cons.IH[OF _ _ this] Cons.prems show ?thesis by (auto intro: parsed.star)
  next
    case ns: False
    show ?thesis
    proof (cases "type_of t = QUANT")
      case True
      with ns Cons.prems have "factor_loop (Node QUANT (Some a) (Some (Tok t))) ts = (x, r)" by simp
      from Cons.IH[OF _ _ this] Cons.prems True show ?thesis by (auto intro: parsed.quant)
    next
      case False
      with ns Cons.prems show ?thesis by auto
    qed
  qed
qed

lemma parser_parsed:
  "\<forall>tk \<in> set ts1. P tk \<Longrightarrow> atom ts1 = Inr (x1, r1) \<Longrightarrow> parsed P x1 \<and> set r1 \<subseteq> set ts1"
  "\<forall>tk \<in> set ts2. P tk \<Longrightarrow> factor ts2 = Inr (x2, r2) \<Longrightarrow> parsed P x2 \<and> set r2 \<subseteq> set ts2"
  "\<forall>tk \<in> set ts3. P tk \<Longrightarrow> parsed P f3 \<Longrightarrow> term_loop f3 ts3 = Inr (x3, r3) \<Longrightarrow>
     parsed P x3 \<and> set r3 \<subseteq> set ts3"
  "\<forall>tk \<in> set ts4. P tk \<Longrightarrow> term_p ts4 = Inr (x4, r4) \<Longrightarrow> parsed P x4 \<and> set r4 \<subseteq> set ts4"
  "\<forall>tk \<in> set ts5. P tk \<Longrightarrow> parsed P f5 \<Longrightarrow> regex_loop f5 ts5 = Inr (x5, r5) \<Longrightarrow>
     parsed P x5 \<and> set r5 \<subseteq> set ts5"
  "\<forall>tk \<in> set ts6. P tk \<Longrightarrow> regex ts6 = Inr (x6, r6) \<Longrightarrow> parsed P x6 \<and> set r6 \<subseteq> set ts6"
proof (induct ts1 and ts2 and f3 ts3 and ts4 and f5 ts5 and ts6
    arbitrary: x1 r1 and x2 r2 and x3 r3 and x4 r4 and x5 r5 and x6 r6
    rule: atom_factor_term_loop_term_p_regex_loop_regex.induct)
  case 1
  then show ?case by simp
next
  case (2 t ts)
  show ?case
  proof (cases "type_of t \<in> {CHAR_k, CLASS, DOT, START, END, ESCAPED_CHAR}")
    case True
    with "2.prems" show ?thesis by (auto intro!: parsed.leaf)
  next
    case False
    with "2.prems" obtain node ts' t' where
      lp: "type_of t = LPAREN" and rg: "regex ts = Inr (node, t' # ts')"
      and res: "x1 = Node GROUP (Some node) None" "r1 = ts'"
      by (auto split: if_splits sum.splits list.splits)
    from "2.hyps"[OF False lp _ rg] "2.prems"(1) have "parsed P node \<and> set (t' # ts') \<subseteq> set ts"
      by simp
    with res show ?thesis by (auto intro: parsed.group)
  qed
next
  case (3 ts)
  from "3.prems" obtain a ts' where a: "atom ts = Inr (a, ts')" and fl: "factor_loop a ts' = (x2, r2)"
    by (auto split: sum.splits)
  from "3.hyps"[OF "3.prems"(1) a] have wa: "parsed P a" "set ts' \<subseteq> set ts" by auto
  with "3.prems"(1) have "\<forall>tk \<in> set ts'. P tk" by auto
  from factor_loop_parsed[OF wa(1) this fl] wa(2) show ?case by auto
next
  case (4 f)
  then show ?case by simp
next
  case (5 f t ts)
  show ?case
  proof (cases "type_of t \<in> {CHAR_k, CLASS, DOT, START, END, ESCAPED_CHAR, LPAREN}")
    case True
    with "5.prems" obtain f' ts' where
      fc: "factor (t # ts) = Inr (f', ts')"
      and tl: "term_loop (Node CONCAT (Some f) (Some f')) ts' = Inr (x3, r3)"
      by (auto simp del: factor.simps split: sum.splits)
    from "5.hyps"(1)[OF True "5.prems"(1) fc] have wf': "parsed P f'" "set ts' \<subseteq> set (t # ts)"
      by auto
    with "5.prems"(1) have lx: "\<forall>tk \<in> set ts'. P tk" by auto
    from "5.hyps"(2)[OF True fc refl lx _ tl] wf'(1) "5.prems"(2)
    have "parsed P x3 \<and> set r3 \<subseteq> set ts'" by (auto intro: parsed.concat)
    with wf'(2) show ?thesis by auto
  next
    case False
    with "5.prems" show ?thesis by auto
  qed
next
  case (6 ts)
  from "6.prems" obtain f ts' where fc: "factor ts = Inr (f, ts')" and tl: "term_loop f ts' = Inr (x4, r4)"
    by (auto simp del: factor.simps split: sum.splits)
  from "6.hyps"(1)[OF "6.prems"(1) fc] have wf: "parsed P f" "set ts' \<subseteq> set ts" by auto
  with "6.prems"(1) have lx: "\<forall>tk \<in> set ts'. P tk" by auto
  from "6.hyps"(2)[OF fc refl lx wf(1) tl] wf(2) show ?case by auto
next
  case (7 tm)
  then show ?case by simp
next
  case (8 tm t ts)
  show ?case
  proof (cases "type_of t = ALT")
    case True
    with "8.prems" obtain tm' ts' where
      tp: "term_p ts = Inr (tm', ts')"
      and rl: "regex_loop (Node ALT (Some tm) (Some tm')) ts' = Inr (x5, r5)"
      by (auto simp del: term_p.simps split: sum.splits)
    from "8.hyps"(1)[OF True _ tp] "8.prems"(1) have wf': "parsed P tm'" "set ts' \<subseteq> set ts"
      by auto
    with "8.prems"(1) have lx: "\<forall>tk \<in> set ts'. P tk" by auto
    from "8.hyps"(2)[OF True tp refl lx _ rl] wf'(1) "8.prems"(2)
    have "parsed P x5 \<and> set r5 \<subseteq> set ts'" by (auto intro: parsed.alt)
    with wf'(2) show ?thesis by auto
  next
    case False
    with "8.prems" show ?thesis by auto
  qed
next
  case (9 ts)
  from "9.prems" obtain tm ts' where tp: "term_p ts = Inr (tm, ts')" and rl: "regex_loop tm ts' = Inr (x6, r6)"
    by (auto simp del: term_p.simps split: sum.splits)
  from "9.hyps"(1)[OF "9.prems"(1) tp] have wf: "parsed P tm" "set ts' \<subseteq> set ts" by auto
  with "9.prems"(1) have lx: "\<forall>tk \<in> set ts'. P tk" by auto
  from "9.hyps"(2)[OF tp refl lx wf(1) rl] wf(2) show ?case by auto
qed

section \<open>The serializer: its output is parsed again\<close>

text \<open>
  On a \<open>parsed\<close> tree \<open>compile\<close> writes the lexemes of \<open>tokens_of\<close>. Read from any state
  \<open>seq fo\<close>, the tokens of a \<open>parsed\<close> tree begin with a token that starts an atom and
  take the parser to a state \<open>cont fo' a\<close>, whatever follows them: they are a sequence of
  factors. At the end of the tokens such a state returns its tree.
\<close>

lemma comb_simps [simp]:
  "comb None a = a"
  "comb (Some f) a = Node CONCAT (Some f) (Some a)"
  by (simp_all add: comb_def)

lemma compile_leaf:
  "type_of t \<in> {CHAR_k, CLASS, DOT, START, END, ESCAPED_CHAR} \<Longrightarrow> lexed t \<Longrightarrow>
     compile (Tok t) = Inr (lexeme t)"
  by (cases t) auto

lemma parsed_compile:
  "parsed lexed t \<Longrightarrow> compile t = Inr (concat (map lexeme (tokens_of t)))"
proof (induction rule: parsed.induct)
  case (leaf t)
  then show ?case by (simp add: compile_leaf)
next
  case (quant x q)
  then show ?case by (simp add: lexeme_def)
qed simp_all

lemma parsed_lexed: "parsed lexed t \<Longrightarrow> \<forall>tk \<in> set (tokens_of t). lexed tk"
  by (induction rule: parsed.induct) auto

lemma parsed_kinds: "parsed lexed t \<Longrightarrow> DOT \<notin> tree_kinds t"
  by (induction rule: parsed.induct) (auto dest: lexed_not_DOT)

lemma parsed_compile_ok: "parsed P t \<Longrightarrow> \<exists>s. compile t = Inr s"
proof (induction rule: parsed.induct)
  case (leaf t)
  then show ?case by (cases t) auto
qed auto

lemma term_p_seq: "term_p ts = seq None ts"
  by (cases "factor ts") (auto simp: seq_def simp del: factor.simps)

lemma regex_seq:
  "regex ts = (case seq None ts of Inl e \<Rightarrow> Inl e | Inr (tm, r) \<Rightarrow> regex_loop tm r)"
  by (simp add: term_p_seq del: term_p.simps)

lemma regex_loop_alt:
  "type_of al = ALT \<Longrightarrow> regex_loop f (al # ts) =
     (case seq None ts of Inl e \<Rightarrow> Inl e
      | Inr (tm', r) \<Rightarrow> regex_loop (Node ALT (Some f) (Some tm')) r)"
  by (simp add: term_p_seq del: term_p.simps)

lemma regex_loop_stop:
  "rest = [] \<or> type_of (hd rest) \<noteq> ALT \<Longrightarrow> regex_loop f rest = Inr (f, rest)"
  by (cases rest) auto

lemma cont_stop:
  "rest = [] \<or> type_of (hd rest) \<in> {RPAREN, ALT} \<Longrightarrow> cont fo a rest = Inr (comb fo a, rest)"
  by (cases rest) (auto simp: cont_def)

lemma cont_postfix:
  "type_of p = STAR \<Longrightarrow> cont fo a (p # rest) = cont fo (Node STAR (Some a) None) rest"
  "type_of p = QUANT \<Longrightarrow> cont fo a (p # rest) = cont fo (Node QUANT (Some a) (Some (Tok p))) rest"
  by (simp_all add: cont_def)

lemma cont_starts_atom:
  "starts_atom t \<Longrightarrow> cont fo a (t # ts) = seq (Some (comb fo a)) (t # ts)"
  by (cases "factor (t # ts)")
    (auto simp: cont_def seq_def starts_atom_def simp del: factor.simps)

lemma seq_leaf:
  "type_of t \<in> {CHAR_k, CLASS, DOT, START, END, ESCAPED_CHAR} \<Longrightarrow>
     seq fo (t # rest) = cont fo (Tok t) rest"
  by (auto simp: seq_def cont_def split: prod.splits)

lemma seq_group:
  "type_of l = LPAREN \<Longrightarrow> type_of r = RPAREN \<Longrightarrow> regex ts = Inr (u, r # rest) \<Longrightarrow>
     seq fo (l # ts) = cont fo (Node GROUP (Some u) None) rest"
  by (auto simp: seq_def cont_def simp del: regex.simps split: prod.splits)

lemma parsed_parses:
  "parsed lexed t \<Longrightarrow>
     (\<exists>t0 ts0. tokens_of t = t0 # ts0 \<and> starts_atom t0)
     \<and> (\<forall>fo rest. \<exists>fo' a. seq fo (tokens_of t @ rest) = cont fo' a rest)"
proof (induction rule: parsed.induct)
  case (leaf t)
  then have "seq fo (tokens_of (Tok t) @ rest) = cont fo (Tok t) rest" for fo rest
    using seq_leaf[of t fo rest] by auto
  with leaf show ?case by (auto simp: starts_atom_def)
next
  case (star x)
  have "\<exists>fo' a. seq fo (tokens_of (Node STAR (Some x) None) @ rest) = cont fo' a rest" for fo rest
  proof -
    let ?rp = "Token RPAREN '')''" and ?st = "Token STAR ''*''"
    from star.IH obtain fo1 a1 where
      "seq None (tokens_of x @ ?rp # ?st # rest) = cont fo1 a1 (?rp # ?st # rest)" by blast
    then have "regex (tokens_of x @ ?rp # ?st # rest) = Inr (comb fo1 a1, ?rp # ?st # rest)"
      by (simp add: regex_seq cont_stop regex_loop_stop del: regex.simps)
    then have "seq fo (Token LPAREN ''('' # tokens_of x @ ?rp # ?st # rest)
        = cont fo (Node GROUP (Some (comb fo1 a1)) None) (?st # rest)"
      by (intro seq_group) auto
    then have "seq fo (tokens_of (Node STAR (Some x) None) @ rest)
        = cont fo (Node STAR (Some (Node GROUP (Some (comb fo1 a1)) None)) None) rest"
      by (simp add: cont_postfix)
    then show ?thesis by blast
  qed
  then show ?case by (auto simp: starts_atom_def)
next
  case (quant x q)
  have "\<exists>fo' a. seq fo (tokens_of (Node QUANT (Some x) (Some (Tok q))) @ rest) = cont fo' a rest"
    for fo rest
  proof -
    from quant.IH obtain fo1 a1 where
      "seq fo (tokens_of x @ q # rest) = cont fo1 a1 (q # rest)" by blast
    with quant.hyps have "seq fo (tokens_of (Node QUANT (Some x) (Some (Tok q))) @ rest)
        = cont fo1 (Node QUANT (Some a1) (Some (Tok q))) rest"
      by (simp add: cont_postfix)
    then show ?thesis by blast
  qed
  with quant.IH show ?case by auto
next
  case (concat x y)
  from concat.IH obtain t0 ts0 where y0: "tokens_of y = t0 # ts0" "starts_atom t0" by blast
  have "\<exists>fo' a. seq fo (tokens_of (Node CONCAT (Some x) (Some y)) @ rest) = cont fo' a rest"
    for fo rest
  proof -
    from concat.IH obtain fo1 a1 where
      "seq fo (tokens_of x @ tokens_of y @ rest) = cont fo1 a1 (tokens_of y @ rest)" by blast
    with y0 have 1: "seq fo (tokens_of x @ tokens_of y @ rest)
        = seq (Some (comb fo1 a1)) (tokens_of y @ rest)"
      by (simp add: cont_starts_atom)
    from concat.IH obtain fo2 a2 where
      "seq (Some (comb fo1 a1)) (tokens_of y @ rest) = cont fo2 a2 rest" by blast
    with 1 show ?thesis by auto
  qed
  with concat.IH show ?case by auto
next
  case (alt x y)
  have "\<exists>fo' a. seq fo (tokens_of (Node ALT (Some x) (Some y)) @ rest) = cont fo' a rest"
    for fo rest
  proof -
    let ?rp = "Token RPAREN '')''" and ?al = "Token ALT ''|''"
    from alt.IH obtain fo2 a2 where
      2: "seq None (tokens_of y @ ?rp # rest) = cont fo2 a2 (?rp # rest)" by blast
    from alt.IH obtain fo1 a1 where
      1: "seq None (tokens_of x @ ?al # tokens_of y @ ?rp # rest)
        = cont fo1 a1 (?al # tokens_of y @ ?rp # rest)" by blast
    have "regex (tokens_of x @ ?al # tokens_of y @ ?rp # rest)
        = Inr (Node ALT (Some (comb fo1 a1)) (Some (comb fo2 a2)), ?rp # rest)"
      by (simp add: regex_seq 1 2 cont_stop regex_loop_alt regex_loop_stop
          del: regex.simps regex_loop.simps)
    then have "seq fo (Token LPAREN ''('' # tokens_of x @ ?al # tokens_of y @ ?rp # rest)
        = cont fo (Node GROUP (Some (Node ALT (Some (comb fo1 a1)) (Some (comb fo2 a2)))) None) rest"
      by (intro seq_group) auto
    then show ?thesis by auto
  qed
  then show ?case by (auto simp: starts_atom_def)
next
  case (group x)
  have "\<exists>fo' a. seq fo (tokens_of (Node GROUP (Some x) None) @ rest) = cont fo' a rest" for fo rest
  proof -
    let ?rp = "Token RPAREN '')''"
    from group.IH obtain fo1 a1 where
      "seq None (tokens_of x @ ?rp # rest) = cont fo1 a1 (?rp # rest)" by blast
    then have "regex (tokens_of x @ ?rp # rest) = Inr (comb fo1 a1, ?rp # rest)"
      by (simp add: regex_seq cont_stop regex_loop_stop del: regex.simps)
    then have "seq fo (Token LPAREN ''('' # tokens_of x @ ?rp # rest)
        = cont fo (Node GROUP (Some (comb fo1 a1)) None) rest"
      by (intro seq_group) auto
    then show ?thesis by auto
  qed
  then show ?case by (auto simp: starts_atom_def)
qed

lemma parsed_regex: "parsed lexed t \<Longrightarrow> \<exists>u. regex (tokens_of t) = Inr (u, [])"
proof -
  assume "parsed lexed t"
  from parsed_parses[OF this] obtain fo a where
    "seq None (tokens_of t @ []) = cont fo a []" by blast
  then have "regex (tokens_of t) = Inr (comb fo a, [])"
    by (simp add: regex_seq cont_stop del: regex.simps)
  then show ?thesis by blast
qed

section \<open>The recursion limit\<close>

text \<open>
  Without the limit, the output of the pipeline is accepted again: for every pattern on
  which \<open>tokenize\<close> and \<open>parse\<close> succeed, \<open>compile\<close> returns a string on which \<open>tokenize\<close>
  and \<open>parse\<close> succeed.
\<close>

lemma round_trip_unbounded:
  assumes "tokenize p = Inr ts" and "parse ts = Inr t"
  shows "\<exists>s ts' t'. compile t = Inr s \<and> tokenize s = Inr ts' \<and> parse ts' = Inr t'"
proof -
  from assms(1) have lx: "\<forall>tk \<in> set ts. lexed tk"
    using tokenize_loop_lexed[of p "[]" ts] by (auto simp: tokenize_def)
  from assms(2) obtain r where "regex ts = Inr (t, r)"
    by (auto simp: parse_def simp del: regex.simps split: sum.splits)
  from parser_parsed(6)[OF lx this] have wf: "parsed lexed t" by simp
  let ?s = "concat (map lexeme (tokens_of t))"
  have c: "compile t = Inr ?s" by (rule parsed_compile[OF wf])
  have tk: "tokenize ?s = Inr (tokens_of t)"
    using tokenize_loop_lexemes[OF parsed_lexed[OF wf], of "[]"] by (simp add: tokenize_def)
  from parsed_regex[OF wf] obtain u where "regex (tokens_of t) = Inr (u, [])" by blast
  then have "parse (tokens_of t) = Inr u" by (simp add: parse_def del: regex.simps)
  with c tk show ?thesis by blast
qed

text \<open>
  A method under the limit returns what the method without the limit returns, or raises
  \<open>RecursionError\<close>.
\<close>

lemma parser_d_cases:
  "atom_d d1 ts1 = atom ts1 \<or> atom_d d1 ts1 = Inl RecursionError"
  "factor_d d2 ts2 = factor ts2 \<or> factor_d d2 ts2 = Inl RecursionError"
  "term_loop_d d3 f3 ts3 = term_loop f3 ts3 \<or> term_loop_d d3 f3 ts3 = Inl RecursionError"
  "term_d d4 ts4 = term_p ts4 \<or> term_d d4 ts4 = Inl RecursionError"
  "regex_loop_d d5 f5 ts5 = regex_loop f5 ts5 \<or> regex_loop_d d5 f5 ts5 = Inl RecursionError"
  "regex_d d6 ts6 = regex ts6 \<or> regex_d d6 ts6 = Inl RecursionError"
proof (induct d1 ts1 and d2 ts2 and d3 f3 ts3 and d4 ts4 and d5 f5 ts5 and d6 ts6
    rule: atom_d_factor_d_term_loop_d_term_d_regex_loop_d_regex_d.induct)
  case (1 d)
  then show ?case by simp
next
  case (2 d t ts)
  then show ?case by (auto simp del: regex_d.simps regex.simps)
next
  case (3 d ts)
  then show ?case by (auto simp del: atom_d.simps atom.simps)
next
  case (4 d f)
  then show ?case by simp
next
  case (5 d f t ts)
  show ?case
  proof (cases "type_of t \<in> {CHAR_k, CLASS, DOT, START, END, ESCAPED_CHAR, LPAREN}")
    case True
    from "5.hyps"(1)[OF True] show ?thesis
    proof
      assume eq: "factor_d (d - 1) (t # ts) = factor (t # ts)"
      show ?thesis
      proof (cases "factor (t # ts)")
        case (Inl e)
        with eq True show ?thesis by (simp del: factor_d.simps factor.simps)
      next
        case (Inr b)
        obtain x y where b: "b = (x, y)" by (cases b)
        from "5.hyps"(2)[OF True _ b[symmetric]] eq Inr
        have "term_loop_d d (Node CONCAT (Some f) (Some x)) y
              = term_loop (Node CONCAT (Some f) (Some x)) y
            \<or> term_loop_d d (Node CONCAT (Some f) (Some x)) y = Inl RecursionError"
          by simp
        with eq Inr b True show ?thesis by (simp del: factor_d.simps factor.simps)
      qed
    next
      assume "factor_d (d - 1) (t # ts) = Inl RecursionError"
      with True show ?thesis by (simp del: factor_d.simps factor.simps)
    qed
  next
    case False
    then show ?thesis by simp
  qed
next
  case (6 d ts)
  show ?case
  proof (cases "d = 0")
    case True
    then show ?thesis by simp
  next
    case False
    from "6.hyps"(1)[OF False] show ?thesis
    proof
      assume eq: "factor_d (d - 1) ts = factor ts"
      show ?thesis
      proof (cases "factor ts")
        case (Inl e)
        with eq False show ?thesis by (simp del: factor_d.simps factor.simps)
      next
        case (Inr b)
        obtain x y where b: "b = (x, y)" by (cases b)
        from "6.hyps"(2)[OF False _ b[symmetric]] eq Inr
        have "term_loop_d d x y = term_loop x y \<or> term_loop_d d x y = Inl RecursionError"
          by simp
        with eq Inr b False show ?thesis by (simp del: factor_d.simps factor.simps)
      qed
    next
      assume "factor_d (d - 1) ts = Inl RecursionError"
      with False show ?thesis by (simp del: factor_d.simps factor.simps)
    qed
  qed
next
  case (7 d tm)
  then show ?case by simp
next
  case (8 d tm t ts)
  show ?case
  proof (cases "type_of t = ALT")
    case True
    from "8.hyps"(1)[OF True] show ?thesis
    proof
      assume eq: "term_d (d - 1) ts = term_p ts"
      show ?thesis
      proof (cases "term_p ts")
        case (Inl e)
        with eq True show ?thesis by (simp del: term_d.simps term_p.simps)
      next
        case (Inr b)
        obtain x y where b: "b = (x, y)" by (cases b)
        from "8.hyps"(2)[OF True _ b[symmetric]] eq Inr
        have "regex_loop_d d (Node ALT (Some tm) (Some x)) y
              = regex_loop (Node ALT (Some tm) (Some x)) y
            \<or> regex_loop_d d (Node ALT (Some tm) (Some x)) y = Inl RecursionError"
          by simp
        with eq Inr b True show ?thesis by (simp del: term_d.simps term_p.simps)
      qed
    next
      assume "term_d (d - 1) ts = Inl RecursionError"
      with True show ?thesis by (simp del: term_d.simps term_p.simps)
    qed
  next
    case False
    then show ?thesis by simp
  qed
next
  case (9 d ts)
  show ?case
  proof (cases "d = 0")
    case True
    then show ?thesis by simp
  next
    case False
    from "9.hyps"(1)[OF False] show ?thesis
    proof
      assume eq: "term_d (d - 1) ts = term_p ts"
      show ?thesis
      proof (cases "term_p ts")
        case (Inl e)
        with eq False show ?thesis by (simp del: term_d.simps term_p.simps)
      next
        case (Inr b)
        obtain x y where b: "b = (x, y)" by (cases b)
        from "9.hyps"(2)[OF False _ b[symmetric]] eq Inr
        have "regex_loop_d d x y = regex_loop x y \<or> regex_loop_d d x y = Inl RecursionError"
          by simp
        with eq Inr b False show ?thesis by (simp del: term_d.simps term_p.simps)
      qed
    next
      assume "term_d (d - 1) ts = Inl RecursionError"
      with False show ?thesis by (simp del: term_d.simps term_p.simps)
    qed
  qed
qed

text \<open>Once enough frames are free, it returns what the method without the limit returns.\<close>

lemma enough_pred: "\<forall>d\<ge>D. F d = v \<Longrightarrow> Suc D \<le> d \<Longrightarrow> d \<noteq> 0 \<and> F (d - 1) = v"
  by simp

lemma enough_max:
  "\<forall>d\<ge>D1. F d = v \<Longrightarrow> \<forall>d\<ge>D2. G d = w \<Longrightarrow> max (Suc D1) D2 \<le> d \<Longrightarrow>
     d \<noteq> 0 \<and> F (d - 1) = v \<and> G d = w"
  using enough_pred[of D1 F v d] by simp

lemma parser_d_enough:
  "\<exists>D. \<forall>d\<ge>D. atom_d d ts1 = atom ts1"
  "\<exists>D. \<forall>d\<ge>D. factor_d d ts2 = factor ts2"
  "\<exists>D. \<forall>d\<ge>D. term_loop_d d f3 ts3 = term_loop f3 ts3"
  "\<exists>D. \<forall>d\<ge>D. term_d d ts4 = term_p ts4"
  "\<exists>D. \<forall>d\<ge>D. regex_loop_d d f5 ts5 = regex_loop f5 ts5"
  "\<exists>D. \<forall>d\<ge>D. regex_d d ts6 = regex ts6"
proof (induct ts1 and ts2 and f3 ts3 and ts4 and f5 ts5 and ts6
    rule: atom_factor_term_loop_term_p_regex_loop_regex.induct)
  case 1
  have "\<forall>d\<ge>1. atom_d d [] = atom []" by simp
  then show ?case by blast
next
  case (2 t ts)
  show ?case
  proof (cases "type_of t \<notin> {CHAR_k, CLASS, DOT, START, END, ESCAPED_CHAR} \<and> type_of t = LPAREN")
    case True
    from "2.hyps" True obtain D where D: "\<forall>d\<ge>D. regex_d d ts = regex ts" by blast
    have "\<forall>d\<ge>Suc D. atom_d d (t # ts) = atom (t # ts)"
    proof (intro allI impI)
      fix d assume "Suc D \<le> d"
      with enough_pred[OF D] have "d \<noteq> 0" "regex_d (d - 1) ts = regex ts" by blast+
      then show "atom_d d (t # ts) = atom (t # ts)"
        by (simp del: regex_d.simps regex.simps)
    qed
    then show ?thesis by blast
  next
    case False
    then have "\<forall>d\<ge>1. atom_d d (t # ts) = atom (t # ts)"
      by (auto simp del: regex_d.simps regex.simps)
    then show ?thesis by blast
  qed
next
  case (3 ts)
  then obtain D where D: "\<forall>d\<ge>D. atom_d d ts = atom ts" by blast
  have "\<forall>d\<ge>Suc D. factor_d d ts = factor ts"
  proof (intro allI impI)
    fix d assume "Suc D \<le> d"
    with enough_pred[OF D] have "d \<noteq> 0" "atom_d (d - 1) ts = atom ts" by blast+
    then show "factor_d d ts = factor ts" by (simp del: atom_d.simps atom.simps)
  qed
  then show ?case by blast
next
  case (4 f)
  then show ?case by simp
next
  case (5 f t ts)
  show ?case
  proof (cases "type_of t \<in> {CHAR_k, CLASS, DOT, START, END, ESCAPED_CHAR, LPAREN}")
    case True
    from "5.hyps"(1)[OF True] obtain D1 where D1: "\<forall>d\<ge>D1. factor_d d (t # ts) = factor (t # ts)"
      by blast
    show ?thesis
    proof (cases "factor (t # ts)")
      case (Inl e)
      have "\<forall>d\<ge>Suc D1. term_loop_d d f (t # ts) = term_loop f (t # ts)"
      proof (intro allI impI)
        fix d assume "Suc D1 \<le> d"
        with enough_pred[OF D1] have "factor_d (d - 1) (t # ts) = factor (t # ts)" by blast
        with Inl True show "term_loop_d d f (t # ts) = term_loop f (t # ts)"
          by (simp del: factor_d.simps factor.simps)
      qed
      then show ?thesis by blast
    next
      case (Inr b)
      obtain x y where b: "b = (x, y)" by (cases b)
      from "5.hyps"(2)[OF True Inr b[symmetric]] obtain D2 where
        D2: "\<forall>d\<ge>D2. term_loop_d d (Node CONCAT (Some f) (Some x)) y
              = term_loop (Node CONCAT (Some f) (Some x)) y" by blast
      have "\<forall>d\<ge>max (Suc D1) D2. term_loop_d d f (t # ts) = term_loop f (t # ts)"
      proof (intro allI impI)
        fix d assume "max (Suc D1) D2 \<le> d"
        with enough_max[OF D1 D2] have "factor_d (d - 1) (t # ts) = factor (t # ts)"
          "term_loop_d d (Node CONCAT (Some f) (Some x)) y
              = term_loop (Node CONCAT (Some f) (Some x)) y" by blast+
        with Inr b True show "term_loop_d d f (t # ts) = term_loop f (t # ts)"
          by (simp del: factor_d.simps factor.simps)
      qed
      then show ?thesis by blast
    qed
  next
    case False
    then show ?thesis by simp
  qed
next
  case (6 ts)
  from "6.hyps"(1) obtain D1 where D1: "\<forall>d\<ge>D1. factor_d d ts = factor ts" by blast
  show ?case
  proof (cases "factor ts")
    case (Inl e)
    have "\<forall>d\<ge>Suc D1. term_d d ts = term_p ts"
    proof (intro allI impI)
      fix d assume "Suc D1 \<le> d"
      with enough_pred[OF D1] have "d \<noteq> 0" "factor_d (d - 1) ts = factor ts" by blast+
      with Inl show "term_d d ts = term_p ts" by (simp del: factor_d.simps factor.simps)
    qed
    then show ?thesis by blast
  next
    case (Inr b)
    obtain x y where b: "b = (x, y)" by (cases b)
    from "6.hyps"(2)[OF Inr b[symmetric]] obtain D2 where
      D2: "\<forall>d\<ge>D2. term_loop_d d x y = term_loop x y" by blast
    have "\<forall>d\<ge>max (Suc D1) D2. term_d d ts = term_p ts"
    proof (intro allI impI)
      fix d assume "max (Suc D1) D2 \<le> d"
      with enough_max[OF D1 D2] have "d \<noteq> 0" "factor_d (d - 1) ts = factor ts" "term_loop_d d x y = term_loop x y" by blast+
      with Inr b show "term_d d ts = term_p ts" by (simp del: factor_d.simps factor.simps)
    qed
    then show ?thesis by blast
  qed
next
  case (7 tm)
  then show ?case by simp
next
  case (8 tm t ts)
  show ?case
  proof (cases "type_of t = ALT")
    case True
    from "8.hyps"(1)[OF True] obtain D1 where D1: "\<forall>d\<ge>D1. term_d d ts = term_p ts" by blast
    show ?thesis
    proof (cases "term_p ts")
      case (Inl e)
      have "\<forall>d\<ge>Suc D1. regex_loop_d d tm (t # ts) = regex_loop tm (t # ts)"
      proof (intro allI impI)
        fix d assume "Suc D1 \<le> d"
        with enough_pred[OF D1] have "term_d (d - 1) ts = term_p ts" by blast
        with Inl True show "regex_loop_d d tm (t # ts) = regex_loop tm (t # ts)"
          by (simp del: term_d.simps term_p.simps)
      qed
      then show ?thesis by blast
    next
      case (Inr b)
      obtain x y where b: "b = (x, y)" by (cases b)
      from "8.hyps"(2)[OF True Inr b[symmetric]] obtain D2 where
        D2: "\<forall>d\<ge>D2. regex_loop_d d (Node ALT (Some tm) (Some x)) y
              = regex_loop (Node ALT (Some tm) (Some x)) y" by blast
      have "\<forall>d\<ge>max (Suc D1) D2. regex_loop_d d tm (t # ts) = regex_loop tm (t # ts)"
      proof (intro allI impI)
        fix d assume "max (Suc D1) D2 \<le> d"
        with enough_max[OF D1 D2] have "term_d (d - 1) ts = term_p ts"
          "regex_loop_d d (Node ALT (Some tm) (Some x)) y
              = regex_loop (Node ALT (Some tm) (Some x)) y" by blast+
        with Inr b True show "regex_loop_d d tm (t # ts) = regex_loop tm (t # ts)"
          by (simp del: term_d.simps term_p.simps)
      qed
      then show ?thesis by blast
    qed
  next
    case False
    then show ?thesis by simp
  qed
next
  case (9 ts)
  from "9.hyps"(1) obtain D1 where D1: "\<forall>d\<ge>D1. term_d d ts = term_p ts" by blast
  show ?case
  proof (cases "term_p ts")
    case (Inl e)
    have "\<forall>d\<ge>Suc D1. regex_d d ts = regex ts"
    proof (intro allI impI)
      fix d assume "Suc D1 \<le> d"
      with enough_pred[OF D1] have "d \<noteq> 0" "term_d (d - 1) ts = term_p ts" by blast+
      with Inl show "regex_d d ts = regex ts" by (simp del: term_d.simps term_p.simps)
    qed
    then show ?thesis by blast
  next
    case (Inr b)
    obtain x y where b: "b = (x, y)" by (cases b)
    from "9.hyps"(2)[OF Inr b[symmetric]] obtain D2 where
      D2: "\<forall>d\<ge>D2. regex_loop_d d x y = regex_loop x y" by blast
    have "\<forall>d\<ge>max (Suc D1) D2. regex_d d ts = regex ts"
    proof (intro allI impI)
      fix d assume "max (Suc D1) D2 \<le> d"
      with enough_max[OF D1 D2] have "d \<noteq> 0" "term_d (d - 1) ts = term_p ts" "regex_loop_d d x y = regex_loop x y" by blast+
      with Inr b show "regex_d d ts = regex ts" by (simp del: term_d.simps term_p.simps)
    qed
    then show ?thesis by blast
  qed
qed

lemma parse_d_cases: "parse_d d ts = parse ts \<or> parse_d d ts = Inl RecursionError"
  using parser_d_cases(6)[of "d - 1" ts]
  by (auto simp: parse_d_def parse_def simp del: regex_d.simps regex.simps)

lemma parse_d_enough: "\<exists>D. \<forall>d\<ge>D. parse_d d ts = parse ts"
proof -
  from parser_d_enough(6)[of ts] obtain D where D: "\<forall>d\<ge>D. regex_d d ts = regex ts" by blast
  have "\<forall>d\<ge>Suc D. parse_d d ts = parse ts"
  proof (intro allI impI)
    fix d assume "Suc D \<le> d"
    with enough_pred[OF D] have "d \<noteq> 0" "regex_d (d - 1) ts = regex ts" by blast+
    then show "parse_d d ts = parse ts"
      by (simp add: parse_d_def parse_def del: regex_d.simps regex.simps)
  qed
  then show ?thesis by blast
qed

lemma compile_d_cases: "compile_d d t = compile t \<or> compile_d d t = Inl RecursionError"
proof (induction t arbitrary: d)
  case (Tok tk)
  then show ?case by (cases tk) simp
next
  case (Node k l r)
  have L: "\<forall>x. l = Some x \<longrightarrow>
      compile_d (d - 1) x = compile x \<or> compile_d (d - 1) x = Inl RecursionError"
    using Node.IH(1) by auto
  have R: "\<forall>x. r = Some x \<longrightarrow>
      compile_d (d - 1) x = compile x \<or> compile_d (d - 1) x = Inl RecursionError"
    using Node.IH(2) by auto
  show ?case
  proof (cases "d = 0")
    case True
    then show ?thesis by simp
  next
    case False
    with L R show ?thesis
      by (cases k) (auto split: option.splits sum.splits tree.splits)
  qed
qed

lemma compile_d_enough: "\<exists>D. \<forall>d\<ge>D. compile_d d t = compile t"
proof (induction t)
  case (Tok tk)
  have "\<forall>d\<ge>1. compile_d d (Tok tk) = compile (Tok tk)" by (cases tk) simp
  then show ?case by blast
next
  case (Node k l r)
  have "\<exists>D. \<forall>e\<ge>D. \<forall>x. l = Some x \<longrightarrow> compile_d e x = compile x"
    using Node.IH(1) by (cases l) auto
  then obtain D1 where D1: "\<forall>e\<ge>D1. \<forall>x. l = Some x \<longrightarrow> compile_d e x = compile x" by blast
  have "\<exists>D. \<forall>e\<ge>D. \<forall>x. r = Some x \<longrightarrow> compile_d e x = compile x"
    using Node.IH(2) by (cases r) auto
  then obtain D2 where D2: "\<forall>e\<ge>D2. \<forall>x. r = Some x \<longrightarrow> compile_d e x = compile x" by blast
  have "\<forall>d\<ge>Suc (Suc (max D1 D2)). compile_d d (Node k l r) = compile (Node k l r)"
  proof (intro allI impI)
    fix d assume "Suc (Suc (max D1 D2)) \<le> d"
    with D1 D2 have "d \<noteq> 0" "d - 1 \<noteq> 0"
      "\<forall>x. l = Some x \<longrightarrow> compile_d (d - 1) x = compile x"
      "\<forall>x. r = Some x \<longrightarrow> compile_d (d - 1) x = compile x"
      by simp_all
    then show "compile_d d (Node k l r) = compile (Node k l r)"
      by (cases k) (auto split: option.splits sum.splits tree.splits)
  qed
  then show ?case by blast
qed

text \<open>
  The pattern \<^verbatim>\<open>a\<close> followed by \<open>n\<close> stars. Its stars take no frame in \<^verbatim>\<open>parse\<close>; its tree
  takes \<open>n + 1\<close> frames in \<^verbatim>\<open>compile\<close>; the \<open>n\<close> nested groups of the string written take
  four frames each in \<^verbatim>\<open>parse\<close>.
\<close>

lemma tokenize_loop_stars:
  "tokenize_loop (replicate n (CHR ''*'')) acc = Inr (acc @ replicate n (Token STAR ''*''))"
proof (induction n arbitrary: acc)
  case 0
  then show ?case by simp
next
  case (Suc n)
  have "tokenize_loop (replicate (Suc n) (CHR ''*'')) acc
      = tokenize_loop (replicate n (CHR ''*'')) (acc @ [Token STAR ''*''])"
    by (simp add: isalnum_def)
  with Suc show ?case by simp
qed

lemma tokenize_stars:
  "tokenize (CHR ''a'' # replicate n (CHR ''*''))
     = Inr (Token CHAR_k ''a'' # replicate n (Token STAR ''*''))"
  using tokenize_loop_stars[of n "[Token CHAR_k ''a'']"]
  by (simp add: tokenize_def isalnum_def)

lemma factor_loop_stars:
  "factor_loop (stars m) (replicate n (Token STAR ''*'')) = (stars (m + n), [])"
proof (induction n arbitrary: m)
  case 0
  then show ?case by simp
next
  case (Suc n)
  have "factor_loop (stars m) (replicate (Suc n) (Token STAR ''*''))
      = factor_loop (stars (Suc m)) (replicate n (Token STAR ''*''))" by simp
  with Suc[of "Suc m"] show ?case by simp
qed

lemma parse_d_stars:
  assumes "5 \<le> d"
  shows "parse_d d (Token CHAR_k ''a'' # replicate n (Token STAR ''*'')) = Inr (stars n)"
proof -
  from assms have d: "d \<noteq> 0" "d - 1 \<noteq> 0" "d - 1 - 1 \<noteq> 0" "d - 1 - 1 - 1 \<noteq> 0"
    "d - 1 - 1 - 1 - 1 \<noteq> 0" by simp_all
  have "atom_d (d - 1 - 1 - 1 - 1) (Token CHAR_k ''a'' # replicate n (Token STAR ''*''))
      = Inr (stars 0, replicate n (Token STAR ''*''))"
    using d by simp
  then have "factor_d (d - 1 - 1 - 1) (Token CHAR_k ''a'' # replicate n (Token STAR ''*''))
      = Inr (stars n, [])"
    using d factor_loop_stars[of 0 n] by (simp del: atom_d.simps)
  then have "term_d (d - 1 - 1) (Token CHAR_k ''a'' # replicate n (Token STAR ''*''))
      = Inr (stars n, [])"
    using d by (simp del: factor_d.simps)
  then have "regex_d (d - 1) (Token CHAR_k ''a'' # replicate n (Token STAR ''*''))
      = Inr (stars n, [])"
    using d by (simp del: term_d.simps)
  then show ?thesis using d by (simp add: parse_d_def del: regex_d.simps)
qed

lemma compile_d_stars: "n < d \<Longrightarrow> compile_d d (stars n) = Inr (stars_string n)"
  by (induction n arbitrary: d) auto

lemma stars_parsed: "parsed lexed (stars n)"
  by (induction n) (auto intro: parsed.intros simp: char_branch_def isalnum_def)

lemma tokens_of_stars: "tokens_of (stars n) = stars_tokens n"
  by (induction n) auto

lemma lexemes_stars: "concat (map lexeme (stars_tokens n)) = stars_string n"
  by (induction n) auto

lemma tokenize_stars_string: "tokenize (stars_string n) = Inr (stars_tokens n)"
  using tokenize_loop_lexemes[OF parsed_lexed[OF stars_parsed[of n]], of "[]"]
  by (simp add: tokenize_def tokens_of_stars lexemes_stars)

lemma regex_d_shallow: "d \<le> 3 \<Longrightarrow> regex_d d ts = Inl RecursionError"
proof -
  assume "d \<le> 3"
  then consider "d = 0" | "d = 1" | "d = 2" | "d = 3" by linarith
  then show ?thesis
  proof cases
    case 1
    then show ?thesis by simp
  next
    case 2
    then show ?thesis by simp
  next
    case 3
    then show ?thesis by simp
  next
    case 4
    then show ?thesis by (cases ts) simp_all
  qed
qed

lemma regex_d_descend:
  assumes "4 \<le> d" and "type_of t = LPAREN" and "regex_d (d - 4) ts = Inl RecursionError"
  shows "regex_d d (t # ts) = Inl RecursionError"
proof -
  from assms(1) have d: "d \<noteq> 0" "d - 1 \<noteq> 0" "d - 1 - 1 \<noteq> 0" "d - 1 - 1 - 1 \<noteq> 0"
    "d - 1 - 1 - 1 - 1 = d - 4" by simp_all
  have "atom_d (d - 1 - 1 - 1) (t # ts) = Inl RecursionError"
    using d assms(2,3) by (simp del: regex_d.simps)
  then have "factor_d (d - 1 - 1) (t # ts) = Inl RecursionError"
    using d by (simp del: atom_d.simps)
  then have "term_d (d - 1) (t # ts) = Inl RecursionError"
    using d by (simp del: factor_d.simps)
  then show ?thesis using d by (simp del: term_d.simps)
qed

lemma regex_d_stars_tokens:
  "d \<le> 4 * n + 3 \<Longrightarrow> regex_d d (stars_tokens n @ rest) = Inl RecursionError"
proof (induction n arbitrary: d rest)
  case 0
  then show ?case by (simp add: regex_d_shallow del: regex_d.simps)
next
  case (Suc n)
  show ?case
  proof (cases "d \<le> 3")
    case True
    then show ?thesis by (rule regex_d_shallow)
  next
    case False
    with Suc.prems have "4 \<le> d" "d - 4 \<le> 4 * n + 3" by simp_all
    from Suc.IH[OF this(2), of "Token RPAREN '')'' # Token STAR ''*'' # rest"]
    have "regex_d (d - 4) (stars_tokens n @ Token RPAREN '')'' # Token STAR ''*'' # rest)
        = Inl RecursionError" .
    from regex_d_descend[OF \<open>4 \<le> d\<close> _ this, of "Token LPAREN ''(''"] show ?thesis by simp
  qed
qed

lemma parse_d_stars_tokens:
  "d \<le> 4 * n + 4 \<Longrightarrow> parse_d d (stars_tokens n) = Inl RecursionError"
  using regex_d_stars_tokens[of "d - 1" n "[]"]
  by (simp add: parse_d_def del: regex_d.simps)

text \<open>
  What is shown below of \<open>parse\<close> and \<open>compile\<close> holds of them under the limit as well: a
  tree that \<open>parse_d\<close> returns has the shapes of \<open>parsed\<close>, \<open>compile_d\<close> never reaches
  \<open>UnknownNodeKind\<close> on it, it contains no \<^verbatim>\<open>DOT\<close> when the tokens come from \<open>tokenize\<close>, and
  on the short inputs of the specification, with the 999 frames of the script, \<open>parse_d\<close>
  and \<open>compile_d\<close> return what \<open>parse\<close> and \<open>compile\<close> return.
\<close>

lemma parse_d_parsed:
  assumes "\<forall>tk \<in> set ts. P tk" and "parse_d d ts = Inr t"
  shows "parsed P t"
proof -
  from assms(2) parse_d_cases[of d ts] have "parse ts = Inr t" by auto
  then obtain r where "regex ts = Inr (t, r)"
    by (auto simp: parse_def simp del: regex.simps split: sum.splits)
  from parser_parsed(6)[OF assms(1) this] show ?thesis by simp
qed

lemma compile_d_no_unknown_node_kind:
  assumes "parse_d d ts = Inr t"
  shows "compile_d e t \<noteq> Inl (UnknownNodeKind k)"
proof -
  from parse_d_parsed[of ts "\<lambda>_. True", OF _ assms] have "parsed (\<lambda>_. True) t" by simp
  from parsed_compile_ok[OF this] obtain s where "compile t = Inr s" by blast
  with compile_d_cases[of e t] show ?thesis by auto
qed

lemma parse_d_never_DOT:
  assumes "tokenize p = Inr ts" and "parse_d d ts = Inr t"
  shows "DOT \<notin> tree_kinds t"
proof -
  from assms(1) have "\<forall>tk \<in> set ts. lexed tk"
    using tokenize_loop_lexed[of p "[]" ts] by (auto simp: tokenize_def)
  from parse_d_parsed[OF this assms(2)] show ?thesis by (rule parsed_kinds)
qed

lemma parse_d_shallow_inputs:
  "parse_d 999 [] = Inl AttributeError"
  "parse_d 999 [Token CHAR_k ''a'', Token ALT ''|''] = Inl AttributeError"
  "parse_d 999 [Token LPAREN ''('', Token CHAR_k ''a''] = Inl UnclosedGroup"
  "parse_d 999 [Token STAR ''*'', Token CHAR_k ''a''] = Inl (UnexpectedToken (Token STAR ''*''))"
  "parse_d 999 [Token CHAR_k ''a'', Token QUANT ''{2,3}'']
     = Inr (Node QUANT (Some (Tok (Token CHAR_k ''a''))) (Some (Tok (Token QUANT ''{2,3}''))))"
  "parse_d 999 [Token CHAR_k ''a'', Token STAR ''*'', Token STAR ''*'']
     = Inr (Node STAR (Some (Node STAR (Some (Tok (Token CHAR_k ''a''))) None)) None)"
  "parse_d 999 [Token CHAR_k ''a'', Token ALT ''|'', Token CHAR_k ''b'']
     = Inr (Node ALT (Some (Tok (Token CHAR_k ''a''))) (Some (Tok (Token CHAR_k ''b''))))"
  "parse_d 999 [Token CHAR_k ''a'', Token RPAREN '')''] = Inr (Tok (Token CHAR_k ''a''))"
  "parse_d 999 [Token CHAR_k ''a'', Token RPAREN '')'', Token CHAR_k ''b'']
     = Inr (Tok (Token CHAR_k ''a''))"
  by (simp_all add: parse_d_def)

lemma compile_d_shallow_inputs:
  "compile_d 999 (Node QUANT (Some (Tok (Token CHAR_k ''a''))) (Some (Tok (Token QUANT ''{2,3}''))))
     = Inr ''a{2,3}''"
  "compile_d 999 (Node ALT (Some (Tok (Token CHAR_k ''a''))) (Some (Tok (Token CHAR_k ''b''))))
     = Inr ''(a|b)''"
  "compile_d 999 (Node STAR (Some (Tok (Token CHAR_k ''a''))) None) = Inr ''(a)*''"
  by simp_all

section \<open>The properties of the specification\<close>

subsection \<open>C1: the output of the pipeline is accepted again\<close>

text \<open>
  C1, as stated, fails under Python's recursion limit. For the pattern \<^verbatim>\<open>a\<close> followed by
  300 stars, with the 999 frames that are free at the calls of the script: \<open>tokenize\<close>
  succeeds; \<^verbatim>\<open>parse\<close> succeeds, the stars being consumed by the loop of \<^verbatim>\<open>factor\<close> in one
  frame; \<^verbatim>\<open>compile\<close> succeeds, 301 frames deep, and writes 300 nested groups, each followed
  by a star; \<open>tokenize\<close> succeeds on that string; \<^verbatim>\<open>parse\<close> then needs four frames for
  every level of group and raises \<open>RecursionError\<close>.
\<close>

theorem round_trip_recursion_limit:
  "tokenize (CHR ''a'' # replicate 300 (CHR ''*''))
     = Inr (Token CHAR_k ''a'' # replicate 300 (Token STAR ''*''))
   \<and> parse_d 999 (Token CHAR_k ''a'' # replicate 300 (Token STAR ''*'')) = Inr (stars 300)
   \<and> compile_d 999 (stars 300) = Inr (stars_string 300)
   \<and> tokenize (stars_string 300) = Inr (stars_tokens 300)
   \<and> parse_d 999 (stars_tokens 300) = Inl RecursionError"
  by (simp add: tokenize_stars parse_d_stars compile_d_stars tokenize_stars_string
      parse_d_stars_tokens)

text \<open>
  C1, amended. For every pattern \<open>p\<close> on which \<open>tokenize\<close> and \<^verbatim>\<open>parse\<close> both succeed
  (with any number \<open>d\<close> of free frames) there are a string \<open>s\<close>, tokens \<open>ts'\<close> and a tree
  \<open>t'\<close> such that: \<^verbatim>\<open>compile\<close> on the tree returns \<open>s\<close> or raises \<open>RecursionError\<close>, and
  nothing else, whatever the number of free frames; \<open>tokenize\<close> succeeds on \<open>s\<close>, with
  \<open>ts'\<close>; \<^verbatim>\<open>parse\<close> on \<open>ts'\<close> returns \<open>t'\<close> or raises \<open>RecursionError\<close>, and nothing else;
  and once enough frames are free, \<^verbatim>\<open>compile\<close> returns \<open>s\<close> and \<^verbatim>\<open>parse\<close> returns \<open>t'\<close>. So the
  output of the pipeline is accepted again whenever the recursion limit is not reached.
\<close>

theorem round_trip_up_to_recursion_limit:
  assumes "tokenize p = Inr ts" and "parse_d d ts = Inr t"
  shows "\<exists>s ts' t'.
      (\<forall>e. compile_d e t = Inr s \<or> compile_d e t = Inl RecursionError)
    \<and> tokenize s = Inr ts'
    \<and> (\<forall>e. parse_d e ts' = Inr t' \<or> parse_d e ts' = Inl RecursionError)
    \<and> (\<exists>D. \<forall>e\<ge>D. compile_d e t = Inr s \<and> parse_d e ts' = Inr t')"
proof -
  from assms(2) parse_d_cases[of d ts] have "parse ts = Inr t" by auto
  from round_trip_unbounded[OF assms(1) this] obtain s ts' t' where
    r: "compile t = Inr s" "tokenize s = Inr ts'" "parse ts' = Inr t'" by blast
  from compile_d_enough[of t] obtain D1 where D1: "\<forall>e\<ge>D1. compile_d e t = compile t" by blast
  from parse_d_enough[of ts'] obtain D2 where D2: "\<forall>e\<ge>D2. parse_d e ts' = parse ts'" by blast
  from D1 D2 r have "\<forall>e\<ge>max D1 D2. compile_d e t = Inr s \<and> parse_d e ts' = Inr t'" by simp
  then have "\<exists>D. \<forall>e\<ge>D. compile_d e t = Inr s \<and> parse_d e ts' = Inr t'" by blast
  moreover from r(1) compile_d_cases[of _ t]
  have "\<forall>e. compile_d e t = Inr s \<or> compile_d e t = Inl RecursionError" by metis
  moreover from r(3) parse_d_cases[of _ ts']
  have "\<forall>e. parse_d e ts' = Inr t' \<or> parse_d e ts' = Inl RecursionError" by metis
  ultimately show ?thesis using r(2) by blast
qed

text \<open>C1 amended, at the pattern \<^verbatim>\<open>a|b*\<close> with 999 free frames.\<close>

theorem round_trip_up_to_recursion_limit_witness:
  "tokenize ''a|b*'' = Inr [Token CHAR_k ''a'', Token ALT ''|'', Token CHAR_k ''b'', Token STAR ''*'']
   \<and> parse_d 999 [Token CHAR_k ''a'', Token ALT ''|'', Token CHAR_k ''b'', Token STAR ''*'']
       = Inr (Node ALT (Some (Tok (Token CHAR_k ''a'')))
                (Some (Node STAR (Some (Tok (Token CHAR_k ''b''))) None)))
   \<and> (\<exists>s ts' t'.
         (compile_d 999 (Node ALT (Some (Tok (Token CHAR_k ''a'')))
                    (Some (Node STAR (Some (Tok (Token CHAR_k ''b''))) None))) = Inr s
          \<or> compile_d 999 (Node ALT (Some (Tok (Token CHAR_k ''a'')))
                    (Some (Node STAR (Some (Tok (Token CHAR_k ''b''))) None)))
              = Inl RecursionError)
         \<and> tokenize s = Inr ts'
         \<and> (parse_d 999 ts' = Inr t' \<or> parse_d 999 ts' = Inl RecursionError))"
proof -
  have h1: "tokenize ''a|b*''
      = Inr [Token CHAR_k ''a'', Token ALT ''|'', Token CHAR_k ''b'', Token STAR ''*'']"
    by (simp add: tokenize_def isalnum_def)
  have h2: "parse_d 999 [Token CHAR_k ''a'', Token ALT ''|'', Token CHAR_k ''b'', Token STAR ''*'']
      = Inr (Node ALT (Some (Tok (Token CHAR_k ''a'')))
               (Some (Node STAR (Some (Tok (Token CHAR_k ''b''))) None)))"
    by (simp add: parse_d_def)
  from round_trip_up_to_recursion_limit[OF h1 h2] h1 h2 show ?thesis by blast
qed

subsection \<open>C2: the end of the tokens where an atom is required\<close>

text \<open>
  C2. When the tokens end where \<^verbatim>\<open>atom\<close> needs one, the source reads
  \<^verbatim>\<open>self.current_token.type\<close> from \<^verbatim>\<open>None\<close>: the failure is Python's \<^verbatim>\<open>AttributeError\<close>, not
  one of the \<^verbatim>\<open>ValueError\<close>s that the parser raises. This is so for the empty token list
  (the tokens of the empty pattern) and for the tokens of \<^verbatim>\<open>a|\<close>.
\<close>

theorem atom_end_of_input_attribute_error:
  "tokenize '''' = Inr [] \<and> parse [] = Inl AttributeError
   \<and> tokenize ''a|'' = Inr [Token CHAR_k ''a'', Token ALT ''|'']
   \<and> parse [Token CHAR_k ''a'', Token ALT ''|''] = Inl AttributeError"
  by (simp add: tokenize_def isalnum_def parse_def)

subsection \<open>C3: the text of a token\<close>

text \<open>
  C3, as stated, fails: the pattern \<^verbatim>\<open>[]\<close> is tokenized to one \<^verbatim>\<open>CLASS\<close> token whose text is
  empty.
\<close>

theorem empty_class_token_text:
  "tokenize ''[]'' = Inr [Token CLASS ''''] \<and> value_of (Token CLASS '''') = ''''"
  by (simp add: tokenize_def isalnum_def)

text \<open>
  C3, amended. For every input on which \<open>tokenize\<close> succeeds, the input is the
  concatenation of the lexemes of the tokens, in order; every token that is not a
  \<^verbatim>\<open>CLASS\<close> token has non-empty text; the lexeme of a \<^verbatim>\<open>CLASS\<close> token is \<^verbatim>\<open>[\<close>, its text,
  \<^verbatim>\<open>]\<close>, and its text has no \<^verbatim>\<open>]\<close> (so the text is exactly the characters between the
  bracket and the next \<^verbatim>\<open>]\<close>, possibly none); the lexeme of a \<^verbatim>\<open>QUANT\<close> token is its text,
  which is \<^verbatim>\<open>{\<close>, characters other than \<^verbatim>\<open>}\<close>, and \<^verbatim>\<open>}\<close>.
\<close>

theorem token_text_invariant:
  assumes "tokenize s = Inr ts"
  shows "concat (map lexeme ts) = s
    \<and> (\<forall>t \<in> set ts.
          (type_of t \<noteq> CLASS \<longrightarrow> value_of t \<noteq> [])
          \<and> (type_of t = CLASS \<longrightarrow>
               lexeme t = ''['' @ value_of t @ '']'' \<and> CHR '']'' \<notin> set (value_of t))
          \<and> (type_of t = QUANT \<longrightarrow>
               lexeme t = value_of t
               \<and> (\<exists>b. value_of t = ''{'' @ b @ ''}'' \<and> CHR ''}'' \<notin> set b)))"
proof -
  from assms have lx: "\<forall>t \<in> set ts. lexed t" and cc: "concat (map lexeme ts) = s"
    using tokenize_loop_lexed[of s "[]" ts] by (auto simp: tokenize_def)
  have "(type_of t \<noteq> CLASS \<longrightarrow> value_of t \<noteq> [])
      \<and> (type_of t = CLASS \<longrightarrow>
           lexeme t = ''['' @ value_of t @ '']'' \<and> CHR '']'' \<notin> set (value_of t))
      \<and> (type_of t = QUANT \<longrightarrow>
           lexeme t = value_of t
           \<and> (\<exists>b. value_of t = ''{'' @ b @ ''}'' \<and> CHR ''}'' \<notin> set b))" if "lexed t" for t
    using that by (cases t; cases "type_of t") auto
  with lx cc show ?thesis by blast
qed

text \<open>C3 amended, at the pattern \<^verbatim>\<open>a[]{2}\<close>.\<close>

theorem token_text_invariant_witness:
  "tokenize ''a[]{2}'' = Inr [Token CHAR_k ''a'', Token CLASS '''', Token QUANT ''{2}'']
   \<and> concat (map lexeme [Token CHAR_k ''a'', Token CLASS '''', Token QUANT ''{2}'']) = ''a[]{2}''
   \<and> value_of (Token CHAR_k ''a'') \<noteq> []
   \<and> lexeme (Token QUANT ''{2}'') = value_of (Token QUANT ''{2}'')"
proof -
  have h: "tokenize ''a[]{2}'' = Inr [Token CHAR_k ''a'', Token CLASS '''', Token QUANT ''{2}'']"
    by (simp add: tokenize_def isalnum_def)
  from token_text_invariant[OF h] h show ?thesis by simp
qed

subsection \<open>C4: a dot is a \<^verbatim>\<open>CHAR\<close> token\<close>

text \<open>
  C4. With the cursor on a \<^verbatim>\<open>.\<close>, \<^verbatim>\<open>get_next_token\<close> returns the token \<^verbatim>\<open>CHAR\<close> with text
  \<^verbatim>\<open>.\<close>, and that is the token \<^verbatim>\<open>tokenize\<close> appends. In every output of \<open>tokenize\<close>, no
  token has the type \<^verbatim>\<open>DOT\<close>, and every token that stands for the text \<^verbatim>\<open>.\<close> alone is that
  \<^verbatim>\<open>CHAR\<close> token (a \<^verbatim>\<open>.\<close> after a backslash or inside brackets or braces belongs to the
  lexeme of that other token). No tree parsed from the tokens contains the type \<^verbatim>\<open>DOT\<close>,
  so the \<^verbatim>\<open>DOT\<close> branches of the tokenizer and of \<^verbatim>\<open>compile\<close> are never taken on it.
\<close>

theorem dot_is_char_never_DOT:
  "get_next_token (CHR ''.'' # s) = Inr (Some (Token CHAR_k ''.''), s)
   \<and> tokenize_loop (CHR ''.'' # s) acc = tokenize_loop s (acc @ [Token CHAR_k ''.''])
   \<and> (tokenize p = Inr ts \<longrightarrow>
        (\<forall>t \<in> set ts. type_of t \<noteq> DOT)
        \<and> (\<forall>t \<in> set ts. lexeme t = ''.'' \<longrightarrow> t = Token CHAR_k ''.'')
        \<and> (\<forall>t. parse ts = Inr t \<longrightarrow> DOT \<notin> tree_kinds t))"
proof -
  have "(\<forall>t \<in> set ts. type_of t \<noteq> DOT)
      \<and> (\<forall>t \<in> set ts. lexeme t = ''.'' \<longrightarrow> t = Token CHAR_k ''.'')
      \<and> (\<forall>t. parse ts = Inr t \<longrightarrow> DOT \<notin> tree_kinds t)"
    if tk: "tokenize p = Inr ts"
  proof -
    from tk have lx: "\<forall>tk \<in> set ts. lexed tk"
      using tokenize_loop_lexed[of p "[]" ts] by (auto simp: tokenize_def)
    have dot: "t = Token CHAR_k ''.''" if "lexed t" and "lexeme t = ''.''" for t
      using that by (cases t; cases "type_of t") auto
    have "DOT \<notin> tree_kinds t" if "parse ts = Inr t" for t
    proof -
      from that obtain r where "regex ts = Inr (t, r)"
        by (auto simp: parse_def simp del: regex.simps split: sum.splits)
      from parser_parsed(6)[OF lx this] show ?thesis by (simp add: parsed_kinds)
    qed
    with lx dot show ?thesis by (auto dest: lexed_not_DOT)
  qed
  then show ?thesis by simp
qed

text \<open>C4, at the pattern \<^verbatim>\<open>a.b\<close>.\<close>

theorem dot_is_char_never_DOT_witness:
  "tokenize ''a.b'' = Inr [Token CHAR_k ''a'', Token CHAR_k ''.'', Token CHAR_k ''b'']
   \<and> parse [Token CHAR_k ''a'', Token CHAR_k ''.'', Token CHAR_k ''b'']
       = Inr (Node CONCAT (Some (Node CONCAT (Some (Tok (Token CHAR_k ''a'')))
                (Some (Tok (Token CHAR_k ''.''))))) (Some (Tok (Token CHAR_k ''b''))))
   \<and> DOT \<notin> tree_kinds (Node CONCAT (Some (Node CONCAT (Some (Tok (Token CHAR_k ''a'')))
                (Some (Tok (Token CHAR_k ''.''))))) (Some (Tok (Token CHAR_k ''b''))))"
proof -
  have h1: "tokenize ''a.b'' = Inr [Token CHAR_k ''a'', Token CHAR_k ''.'', Token CHAR_k ''b'']"
    by (simp add: tokenize_def isalnum_def)
  have h2: "parse [Token CHAR_k ''a'', Token CHAR_k ''.'', Token CHAR_k ''b'']
       = Inr (Node CONCAT (Some (Node CONCAT (Some (Tok (Token CHAR_k ''a'')))
                (Some (Tok (Token CHAR_k ''.''))))) (Some (Tok (Token CHAR_k ''b''))))"
    by (simp add: parse_def)
  from dot_is_char_never_DOT[of "[]" "[]" "''a.b''"
      "[Token CHAR_k ''a'', Token CHAR_k ''.'', Token CHAR_k ''b'']"] h1 h2
  show ?thesis by blast
qed

subsection \<open>C5: \<^verbatim>\<open>compile\<close> does not fail on a parsed tree\<close>

text \<open>
  C5. On every tree that \<open>parse\<close> returns, for any token list and so for every output
  of \<open>tokenize\<close>, \<open>compile\<close> returns a string: it reaches neither its final \<^verbatim>\<open>else\<close> branch
  (\<open>UnknownNodeKind\<close>) nor any other failure.
\<close>

theorem compile_total_on_parser_output:
  assumes "parse ts = Inr t"
  shows "(\<exists>s. compile t = Inr s) \<and> (\<forall>k. compile t \<noteq> Inl (UnknownNodeKind k))"
proof -
  from assms obtain r where "regex ts = Inr (t, r)"
    by (auto simp: parse_def simp del: regex.simps split: sum.splits)
  from parser_parsed(6)[of ts "\<lambda>_. True", OF _ this] have "parsed (\<lambda>_. True) t" by simp
  from parsed_compile_ok[OF this] show ?thesis by auto
qed

text \<open>C5, at the tokens of the pattern \<^verbatim>\<open>(a|b)*\<close>.\<close>

theorem compile_total_on_parser_output_witness:
  "tokenize ''(a|b)*'' = Inr [Token LPAREN ''('', Token CHAR_k ''a'', Token ALT ''|'',
       Token CHAR_k ''b'', Token RPAREN '')'', Token STAR ''*'']
   \<and> parse [Token LPAREN ''('', Token CHAR_k ''a'', Token ALT ''|'',
       Token CHAR_k ''b'', Token RPAREN '')'', Token STAR ''*'']
       = Inr (Node STAR (Some (Node GROUP (Some (Node ALT (Some (Tok (Token CHAR_k ''a'')))
                (Some (Tok (Token CHAR_k ''b''))))) None)) None)
   \<and> (\<exists>s. compile (Node STAR (Some (Node GROUP (Some (Node ALT (Some (Tok (Token CHAR_k ''a'')))
                (Some (Tok (Token CHAR_k ''b''))))) None)) None) = Inr s)"
proof -
  have h1: "tokenize ''(a|b)*'' = Inr [Token LPAREN ''('', Token CHAR_k ''a'', Token ALT ''|'',
       Token CHAR_k ''b'', Token RPAREN '')'', Token STAR ''*'']"
    by (simp add: tokenize_def isalnum_def)
  have h2: "parse [Token LPAREN ''('', Token CHAR_k ''a'', Token ALT ''|'',
       Token CHAR_k ''b'', Token RPAREN '')'', Token STAR ''*'']
       = Inr (Node STAR (Some (Node GROUP (Some (Node ALT (Some (Tok (Token CHAR_k ''a'')))
                (Some (Tok (Token CHAR_k ''b''))))) None)) None)"
    by (simp add: parse_def)
  from compile_total_on_parser_output[OF h2] h1 h2 show ?thesis by blast
qed

subsection \<open>C6: the error cases\<close>

text \<open>
  C6. Tokenizing \<^verbatim>\<open>a[\<close> fails with \<open>UnterminatedClass\<close>; tokenizing \<^verbatim>\<open>a\<close> followed by a
  backslash fails with \<open>UnterminatedEscape\<close>; parsing the tokens of \<^verbatim>\<open>(a\<close> fails with
  \<open>UnclosedGroup\<close>; parsing the tokens of \<^verbatim>\<open>*a\<close> fails with \<open>UnexpectedToken\<close>, at the
  \<^verbatim>\<open>STAR\<close> token.
\<close>

theorem error_table:
  "tokenize ''a['' = Inl UnterminatedClass
   \<and> tokenize [CHR ''a'', CHR 0x5C] = Inl UnterminatedEscape
   \<and> tokenize ''(a'' = Inr [Token LPAREN ''('', Token CHAR_k ''a'']
   \<and> parse [Token LPAREN ''('', Token CHAR_k ''a''] = Inl UnclosedGroup
   \<and> tokenize ''*a'' = Inr [Token STAR ''*'', Token CHAR_k ''a'']
   \<and> parse [Token STAR ''*'', Token CHAR_k ''a''] = Inl (UnexpectedToken (Token STAR ''*''))"
  by (simp add: tokenize_def isalnum_def parse_def)

subsection \<open>C7: quantifiers pass through\<close>

text \<open>
  C7. The pattern \<^verbatim>\<open>a{2,3}\<close> is parsed to \<^verbatim>\<open>QUANT(CHAR(a), "{2,3}")\<close> and serialized to
  \<^verbatim>\<open>a{2,3}\<close>. In general: whatever stands between the braces (any text \<open>b\<close> without
  \<^verbatim>\<open>}\<close>, numeric or not) becomes the text of the \<^verbatim>\<open>QUANT\<close> token, braces included; the loop
  of \<^verbatim>\<open>factor\<close> puts the token itself into the \<^verbatim>\<open>QUANT\<close> node; and \<^verbatim>\<open>compile\<close> writes the
  text of the token, unchanged and without parentheses, after the operand.
\<close>

theorem quantifier_pass_through:
  "tokenize ''a{2,3}'' = Inr [Token CHAR_k ''a'', Token QUANT ''{2,3}'']
   \<and> parse [Token CHAR_k ''a'', Token QUANT ''{2,3}'']
       = Inr (Node QUANT (Some (Tok (Token CHAR_k ''a''))) (Some (Tok (Token QUANT ''{2,3}''))))
   \<and> compile (Node QUANT (Some (Tok (Token CHAR_k ''a''))) (Some (Tok (Token QUANT ''{2,3}''))))
       = Inr ''a{2,3}''
   \<and> (CHR ''}'' \<notin> set b \<longrightarrow>
        tokenize (''a{'' @ b @ ''}'') = Inr [Token CHAR_k ''a'', Token QUANT (''{'' @ b @ ''}'')])
   \<and> (type_of q = QUANT \<longrightarrow>
        factor_loop a (q # ts) = factor_loop (Node QUANT (Some a) (Some (Tok q))) ts)
   \<and> (compile x = Inr s \<longrightarrow>
        compile (Node QUANT (Some x) (Some (Tok q))) = Inr (s @ value_of q))"
proof -
  have "tokenize (''a{'' @ b @ ''}'') = Inr [Token CHAR_k ''a'', Token QUANT (''{'' @ b @ ''}'')]"
    if "CHR ''}'' \<notin> set b"
    using scan_until_stop[OF that, of "''{''" "[]"] by (simp add: tokenize_def isalnum_def)
  then show ?thesis by (simp add: tokenize_def isalnum_def parse_def)
qed

text \<open>C7, at the pattern \<^verbatim>\<open>a{x,y}\<close>, whose bounds are not numbers.\<close>

theorem quantifier_pass_through_witness:
  "tokenize ''a{x,y}'' = Inr [Token CHAR_k ''a'', Token QUANT ''{x,y}'']
   \<and> factor_loop (Tok (Token CHAR_k ''a'')) [Token QUANT ''{x,y}'']
       = (Node QUANT (Some (Tok (Token CHAR_k ''a''))) (Some (Tok (Token QUANT ''{x,y}''))), [])
   \<and> compile (Node QUANT (Some (Tok (Token CHAR_k ''a''))) (Some (Tok (Token QUANT ''{x,y}''))))
       = Inr ''a{x,y}''"
  using quantifier_pass_through[where b = "''x,y''" and q = "Token QUANT ''{x,y}''"
      and a = "Tok (Token CHAR_k ''a'')" and ts = "[]" and x = "Tok (Token CHAR_k ''a'')"
      and s = "''a''"]
  by simp

subsection \<open>C8: postfix operators nest to the left\<close>

text \<open>
  C8. Parsing \<^verbatim>\<open>a**\<close> yields \<^verbatim>\<open>STAR(STAR(a))\<close> and parsing \<^verbatim>\<open>a{2}{3}\<close> yields
  \<^verbatim>\<open>QUANT(QUANT(a,{2}),{3})\<close>. In general the loop of \<^verbatim>\<open>factor\<close> consumes a run \<open>ps\<close> of
  \<^verbatim>\<open>STAR\<close> and \<^verbatim>\<open>QUANT\<close> tokens from left to right, each token wrapping the tree built so
  far, and stops at the first token of another type or at the end.
\<close>

theorem postfix_left_assoc:
  "tokenize ''a**'' = Inr [Token CHAR_k ''a'', Token STAR ''*'', Token STAR ''*'']
   \<and> parse [Token CHAR_k ''a'', Token STAR ''*'', Token STAR ''*'']
       = Inr (Node STAR (Some (Node STAR (Some (Tok (Token CHAR_k ''a''))) None)) None)
   \<and> tokenize ''a{2}{3}'' = Inr [Token CHAR_k ''a'', Token QUANT ''{2}'', Token QUANT ''{3}'']
   \<and> parse [Token CHAR_k ''a'', Token QUANT ''{2}'', Token QUANT ''{3}'']
       = Inr (Node QUANT (Some (Node QUANT (Some (Tok (Token CHAR_k ''a'')))
                (Some (Tok (Token QUANT ''{2}''))))) (Some (Tok (Token QUANT ''{3}''))))
   \<and> ((\<forall>p \<in> set ps. type_of p \<in> {STAR, QUANT})
        \<and> (rest = [] \<or> type_of (hd rest) \<notin> {STAR, QUANT}) \<longrightarrow>
        factor_loop a (ps @ rest) = (foldl postfix_node a ps, rest))"
proof -
  have "factor_loop a (ps @ rest) = (foldl postfix_node a ps, rest)"
    if "\<forall>p \<in> set ps. type_of p \<in> {STAR, QUANT}"
      and "rest = [] \<or> type_of (hd rest) \<notin> {STAR, QUANT}"
    using that
  proof (induction ps arbitrary: a)
    case Nil
    then show ?case by (cases rest) auto
  next
    case (Cons p ps)
    then show ?case by (auto simp: postfix_node_def)
  qed
  then show ?thesis by (simp add: tokenize_def isalnum_def parse_def)
qed

text \<open>C8, at the postfix tokens of \<^verbatim>\<open>a*{2}b\<close>.\<close>

theorem postfix_left_assoc_witness:
  "factor_loop (Tok (Token CHAR_k ''a''))
      [Token STAR ''*'', Token QUANT ''{2}'', Token CHAR_k ''b'']
   = (Node QUANT (Some (Node STAR (Some (Tok (Token CHAR_k ''a''))) None))
        (Some (Tok (Token QUANT ''{2}''))), [Token CHAR_k ''b''])"
  using postfix_left_assoc[where ps = "[Token STAR ''*'', Token QUANT ''{2}'']"
      and rest = "[Token CHAR_k ''b'']" and a = "Tok (Token CHAR_k ''a'')"]
  by (simp add: postfix_node_def)

subsection \<open>C9: star and alternation are always parenthesized\<close>

text \<open>
  C9. Parsing \<^verbatim>\<open>a|b\<close> and serializing yields \<^verbatim>\<open>(a|b)\<close>; parsing \<^verbatim>\<open>a*\<close> and serializing
  yields \<^verbatim>\<open>(a)*\<close>. In general \<^verbatim>\<open>compile\<close> writes a \<^verbatim>\<open>STAR\<close> node as \<^verbatim>\<open>(\<close>, the operand,
  \<^verbatim>\<open>)*\<close>, and an \<^verbatim>\<open>ALT\<close> node as \<^verbatim>\<open>(\<close>, the left operand, \<^verbatim>\<open>|\<close>, the right operand, \<^verbatim>\<open>)\<close>,
  whatever the operands are.
\<close>

theorem star_alt_parenthesized:
  "tokenize ''a|b'' = Inr [Token CHAR_k ''a'', Token ALT ''|'', Token CHAR_k ''b'']
   \<and> parse [Token CHAR_k ''a'', Token ALT ''|'', Token CHAR_k ''b'']
       = Inr (Node ALT (Some (Tok (Token CHAR_k ''a''))) (Some (Tok (Token CHAR_k ''b''))))
   \<and> compile (Node ALT (Some (Tok (Token CHAR_k ''a''))) (Some (Tok (Token CHAR_k ''b''))))
       = Inr ''(a|b)''
   \<and> tokenize ''a*'' = Inr [Token CHAR_k ''a'', Token STAR ''*'']
   \<and> parse [Token CHAR_k ''a'', Token STAR ''*'']
       = Inr (Node STAR (Some (Tok (Token CHAR_k ''a''))) None)
   \<and> compile (Node STAR (Some (Tok (Token CHAR_k ''a''))) None) = Inr ''(a)*''
   \<and> (compile x = Inr s \<longrightarrow> compile (Node STAR (Some x) r) = Inr (''('' @ s @ '')*''))
   \<and> (compile x = Inr sx \<and> compile y = Inr sy \<longrightarrow>
        compile (Node ALT (Some x) (Some y)) = Inr (''('' @ sx @ ''|'' @ sy @ '')''))"
  by (simp add: tokenize_def isalnum_def parse_def)

text \<open>C9, at a star over a group and an alternation of two characters.\<close>

theorem star_alt_parenthesized_witness:
  "compile (Node STAR (Some (Node GROUP (Some (Tok (Token CHAR_k ''a''))) None)) None)
     = Inr ''((a))*''
   \<and> compile (Node ALT (Some (Tok (Token CHAR_k ''c''))) (Some (Tok (Token CHAR_k ''d''))))
     = Inr ''(c|d)''"
  using star_alt_parenthesized[where x = "Node GROUP (Some (Tok (Token CHAR_k ''a''))) None"
      and s = "''(a)''" and r = None]
    star_alt_parenthesized[where x = "Tok (Token CHAR_k ''c'')" and sx = "''c''"
      and y = "Tok (Token CHAR_k ''d'')" and sy = "''d''"]
  by simp

subsection \<open>C10: tokens after the parsed prefix are dropped\<close>

text \<open>
  C10. \<open>parse\<close> does not require that all tokens are consumed. On the tokens of \<^verbatim>\<open>a)\<close>
  and of \<^verbatim>\<open>a)b\<close>, \<^verbatim>\<open>regex\<close> returns \<^verbatim>\<open>CHAR(a)\<close> with the tokens from \<^verbatim>\<open>)\<close> on left over, and
  \<open>parse\<close> returns that tree without any error.
\<close>

theorem parse_ignores_trailing_tokens:
  "tokenize ''a)'' = Inr [Token CHAR_k ''a'', Token RPAREN '')'']
   \<and> regex [Token CHAR_k ''a'', Token RPAREN '')'']
       = Inr (Tok (Token CHAR_k ''a''), [Token RPAREN '')''])
   \<and> parse [Token CHAR_k ''a'', Token RPAREN '')''] = Inr (Tok (Token CHAR_k ''a''))
   \<and> tokenize ''a)b'' = Inr [Token CHAR_k ''a'', Token RPAREN '')'', Token CHAR_k ''b'']
   \<and> regex [Token CHAR_k ''a'', Token RPAREN '')'', Token CHAR_k ''b'']
       = Inr (Tok (Token CHAR_k ''a''), [Token RPAREN '')'', Token CHAR_k ''b''])
   \<and> parse [Token CHAR_k ''a'', Token RPAREN '')'', Token CHAR_k ''b'']
       = Inr (Tok (Token CHAR_k ''a''))"
  by (simp add: tokenize_def isalnum_def parse_def)

end
